theory Spec2Isabelle
  imports Main "HOL-Library.Multiset"
begin

section \<open>ComponentBase: automatic store subscriptions\<close>

text \<open>
  A shallow embedding of \<^verbatim>\<open>src/ComponentBase.ts\<close>. One component instance is a record of its
  mutable fields; every method takes the instance and returns the instance as the method leaves
  it, together with the calls the method makes across the boundary of the class (to stores, to
  the subclass's \<^verbatim>\<open>_buildState\<close>, to \<^verbatim>\<open>Options\<close>, to \<^verbatim>\<open>Instrumentation\<close> and to
  React's \<^verbatim>\<open>setState\<close>), oldest call first. A thrown exception is the \<open>Inl\<close> of the
  method's outcome; the instance and the calls returned with it are those reached when the
  exception left the method.
\<close>

subsection \<open>Data\<close>

text \<open>
  A store is consumed through its \<^verbatim>\<open>storeId\<close> and its two registration methods. Two store
  objects are the same object when they agree on \<open>storeObject\<close>; nothing in the component
  compares store objects, it compares their \<^verbatim>\<open>storeId\<close>.
\<close>

record StoreBase =
  storeObject :: nat
  storeId :: string

text \<open>
  Modelled from the spec: \<^verbatim>\<open>StoreBase.Key_All\<close>, declared in \<^verbatim>\<open>StoreBase.ts\<close>, is the
  reserved sentinel key meaning "any key on this store". The development uses only that it is
  one fixed string.
\<close>

definition Key_All :: string where
  "Key_All = ''%!$all''"

text \<open>
  \<^verbatim>\<open>AutoSubscription\<close>: the store, the key, the callback (the owner's bound
  \<^verbatim>\<open>_onAutoSubscriptionChanged\<close>, a closure known by its identity) and the transient mark.
\<close>

record AutoSubscription =
  store :: StoreBase
  key :: string
  callback :: nat
  used :: bool

type_synonym 'v Dictionary = "(string \<times> 'v) list"

datatype exception = Error string

text \<open>The fields of a \<^verbatim>\<open>ComponentBase\<close> instance that the class itself reads or writes.\<close>

record 'p ComponentBase =
  handledAutoSubscriptions :: "AutoSubscription list"
  isMounted :: bool
  props :: 'p
  onAutoSubscriptionChanged :: nat

text \<open>\<^verbatim>\<open>InternalState\<close>: the part of the React state that leads back to the instance.\<close>

record 'p InternalState =
  getInstance :: "'p ComponentBase option"

text \<open>The calls a method makes on its collaborators.\<close>

datatype ('p, 'v) Call =
    TrackAutoSubscription AutoSubscription
  | RemoveAutoSubscription AutoSubscription
  | BeginBuildState
  | EndBuildState
  | BuildState 'p bool
  | ShouldComponentUpdateComparator 'p 'p
  | SetState "'v Dictionary"

text \<open>
  One invocation of the subclass's \<^verbatim>\<open>_buildState(props, initialBuild)\<close>, as the component
  sees it: the store reads it performs, in order, each intercepted while the build runs, and
  then either the draft state it returns (\<^verbatim>\<open>undefined\<close> is \<open>None\<close>) or the exception it
  throws.
\<close>

record 'v BuildRun =
  reads :: "(StoreBase \<times> string) list"
  outcome :: "exception + 'v Dictionary option"

text \<open>
  What surrounds the instance when a method runs: \<^verbatim>\<open>Options.shouldComponentUpdateComparator\<close>,
  whether \<^verbatim>\<open>Instrumentation.impl\<close> is set, and the subclass's \<^verbatim>\<open>_buildState\<close> as it behaves
  against the stores' present contents.
\<close>

record ('p, 'v) Ambient =
  shouldComponentUpdateComparator :: "'p \<Rightarrow> 'p \<Rightarrow> bool"
  instrumentationImpl :: bool
  buildState :: "'p \<Rightarrow> bool \<Rightarrow> 'v BuildRun"

type_synonym ('p, 'v, 'r) Result = "(exception + 'r) \<times> 'p ComponentBase \<times> ('p, 'v) Call list"

subsection \<open>Helpers of \<^verbatim>\<open>utils.ts\<close>\<close>

text \<open>
  Modelled from the spec: \<^verbatim>\<open>find\<close> of \<^verbatim>\<open>utils.ts\<close> searches the array for an element
  satisfying the predicate and yields the first one, or \<^verbatim>\<open>undefined\<close>. The element is an
  object of the array; the model yields its position, which stands for the reference.
\<close>

fun utils_find :: "'a list \<Rightarrow> ('a \<Rightarrow> bool) \<Rightarrow> nat option" where
  "utils_find [] predicate = None"
| "utils_find (x # xs) predicate =
     (if predicate x then Some 0 else map_option Suc (utils_find xs predicate))"

text \<open>
  Modelled from the spec: \<^verbatim>\<open>remove\<close> of \<^verbatim>\<open>utils.ts\<close> calls the predicate on every element
  and removes from the array those for which it answers true (the sweep runs in registry
  order). The predicate may make calls of its own; they are collected in the order made.
\<close>

fun utils_remove :: "'a list \<Rightarrow> ('a \<Rightarrow> bool \<times> 'c list) \<Rightarrow> 'a list \<times> 'c list" where
  "utils_remove [] predicate = ([], [])"
| "utils_remove (x # xs) predicate =
     (let (b, cs) = predicate x;
          (ys, ds) = utils_remove xs predicate
      in (if b then ys else x # ys, cs @ ds))"

subsection \<open>The methods\<close>

definition constructor :: "'p \<Rightarrow> nat \<Rightarrow> 'p ComponentBase" where
  "constructor p cb =
     \<lparr>handledAutoSubscriptions = [], isMounted = False, props = p,
      onAutoSubscriptionChanged = cb\<rparr>"

definition isComponentMounted :: "'p ComponentBase \<Rightarrow> bool" where
  "isComponentMounted this = isMounted this"

definition shouldRemoveAndCleanupAutoSubscription :: "AutoSubscription \<Rightarrow> bool" where
  "shouldRemoveAndCleanupAutoSubscription subscription = (\<not> used subscription)"

definition findMatchingAutoSubscription ::
    "'p ComponentBase \<Rightarrow> StoreBase \<Rightarrow> string \<Rightarrow> nat option" where
  "findMatchingAutoSubscription this st k =
     utils_find (handledAutoSubscriptions this)
       (\<lambda>subscription.
          storeId (store subscription) = storeId st \<and>
          (key subscription = k \<or> key subscription = Key_All))"

definition handleAutoSubscribe ::
    "'p ComponentBase \<Rightarrow> StoreBase \<Rightarrow> string \<Rightarrow> 'p ComponentBase \<times> ('p, 'v) Call list" where
  "handleAutoSubscribe this st k =
     (case findMatchingAutoSubscription this st k of
        Some i \<Rightarrow>
          (this\<lparr>handledAutoSubscriptions :=
              (handledAutoSubscriptions this)
                [i := (handledAutoSubscriptions this ! i)\<lparr>used := True\<rparr>]\<rparr>, [])
      | None \<Rightarrow>
          (let subscription =
                 \<lparr>store = st, key = k, callback = onAutoSubscriptionChanged this, used = True\<rparr>
           in (this\<lparr>handledAutoSubscriptions := handledAutoSubscriptions this @ [subscription]\<rparr>,
               [TrackAutoSubscription subscription])))"

definition autoSubscribeHandler_handle ::
    "'p ComponentBase \<Rightarrow> StoreBase \<Rightarrow> string \<Rightarrow> 'p ComponentBase \<times> ('p, 'v) Call list" where
  "autoSubscribeHandler_handle self st k = handleAutoSubscribe self st k"

text \<open>
  Modelled from the spec: \<^verbatim>\<open>enableAutoSubscribe\<close> of \<^verbatim>\<open>AutoSubscriptions.ts\<close> arms the
  interception context for the duration of the decorated method; while it is armed every store
  read invokes the handler synchronously with the reading owner, the store and the key.
\<close>

fun enableAutoSubscribe ::
    "'p ComponentBase \<Rightarrow> (StoreBase \<times> string) list \<Rightarrow> 'p ComponentBase \<times> ('p, 'v) Call list" where
  "enableAutoSubscribe self [] = (self, [])"
| "enableAutoSubscribe self ((st, k) # rs) =
     (let (self1, cs) = autoSubscribeHandler_handle self st k;
          (self2, ds) = enableAutoSubscribe self1 rs
      in (self2, cs @ ds))"

definition buildStateWithAutoSubscriptions ::
    "('p, 'v) Ambient \<Rightarrow> 'p ComponentBase \<Rightarrow> 'p \<Rightarrow> bool \<Rightarrow> ('p, 'v, 'v Dictionary option) Result" where
  "buildStateWithAutoSubscriptions amb this p initialBuild =
     (let this1 = this\<lparr>handledAutoSubscriptions :=
                    map (\<lambda>sub. sub\<lparr>used := False\<rparr>) (handledAutoSubscriptions this)\<rparr>;
          begin = (if instrumentationImpl amb then [BeginBuildState] else []);
          run = buildState amb p initialBuild;
          (this2, tracked) = enableAutoSubscribe this1 (reads run)
      in case outcome run of
           Inl e \<Rightarrow> (Inl e, this2, begin @ [BuildState p initialBuild] @ tracked)
         | Inr state \<Rightarrow>
             (let finish = (if instrumentationImpl amb then [EndBuildState] else []);
                  (kept, removed) =
                    utils_remove (handledAutoSubscriptions this2)
                      (\<lambda>subscription.
                         if shouldRemoveAndCleanupAutoSubscription subscription
                         then (True, [RemoveAutoSubscription subscription])
                         else (False, []))
              in (Inr state, this2\<lparr>handledAutoSubscriptions := kept\<rparr>,
                  begin @ [BuildState p initialBuild] @ tracked @ finish @ removed)))"

text \<open>The \<^verbatim>\<open>_buildState\<close> of the base class: no store read, \<^verbatim>\<open>undefined\<close> returned.\<close>

definition buildState_default :: "'p \<Rightarrow> bool \<Rightarrow> 'v BuildRun" where
  "buildState_default p initialBuild = \<lparr>reads = [], outcome = Inr None\<rparr>"

definition buildInitialState ::
    "('p, 'v) Ambient \<Rightarrow> 'p ComponentBase \<Rightarrow> ('p, 'v, 'v Dictionary) Result" where
  "buildInitialState amb this =
     (case buildStateWithAutoSubscriptions amb this (props this) True of
        (Inl e, this1, cs) \<Rightarrow> (Inl e, this1, cs)
      | (Inr None, this1, cs) \<Rightarrow> (Inr [], this1, cs)
      | (Inr (Some initialState), this1, cs) \<Rightarrow> (Inr initialState, this1, cs))"

definition handleUpdate ::
    "('p, 'v) Ambient \<Rightarrow> 'p ComponentBase \<Rightarrow> 'p \<Rightarrow> ('p, 'v, 'v Dictionary option) Result" where
  "handleUpdate amb this nextProps =
     (if \<not> shouldComponentUpdateComparator amb (props this) nextProps then
        (case buildStateWithAutoSubscriptions amb this nextProps False of
           (Inl e, this1, cs) \<Rightarrow>
             (Inl e, this1, ShouldComponentUpdateComparator (props this) nextProps # cs)
         | (Inr newState, this1, cs) \<Rightarrow>
             (Inr (case newState of
                     None \<Rightarrow> None
                   | Some d \<Rightarrow> if length (map fst d) \<noteq> 0 then Some d else None),
              this1, ShouldComponentUpdateComparator (props this) nextProps # cs))
      else (Inr None, this, [ShouldComponentUpdateComparator (props this) nextProps]))"

definition getDerivedStateFromProps ::
    "('p, 'v) Ambient \<Rightarrow> 'p \<Rightarrow> 'p InternalState option \<Rightarrow>
       (exception + 'v Dictionary option) \<times> 'p ComponentBase option \<times> ('p, 'v) Call list" where
  "getDerivedStateFromProps amb nextProps prevState =
     (case prevState of
        Some s \<Rightarrow>
          (case getInstance s of
             Some instance \<Rightarrow>
               (if \<not> isMounted instance then
                  (case buildInitialState amb instance of
                     (Inl e, instance1, cs) \<Rightarrow> (Inl e, Some instance1, cs)
                   | (Inr d, instance1, cs) \<Rightarrow> (Inr (Some d), Some instance1, cs))
                else
                  (case handleUpdate amb instance nextProps of
                     (r, instance1, cs) \<Rightarrow> (r, Some instance1, cs)))
           | None \<Rightarrow> (Inl (Error ''couldn't get instance of Component''), None, []))
      | None \<Rightarrow> (Inl (Error ''couldn't get instance of Component''), None, []))"

definition componentWillUnmount ::
    "'p ComponentBase \<Rightarrow> 'p ComponentBase \<times> ('p, 'v) Call list" where
  "componentWillUnmount this =
     (this\<lparr>handledAutoSubscriptions := [], isMounted := False\<rparr>,
      map (\<lambda>subscription. RemoveAutoSubscription (subscription\<lparr>used := False\<rparr>))
        (handledAutoSubscriptions this))"

definition componentDidMount :: "'p ComponentBase \<Rightarrow> 'p ComponentBase" where
  "componentDidMount this = this\<lparr>isMounted := True\<rparr>"

definition componentDidUpdate :: "'p ComponentBase \<Rightarrow> 'p ComponentBase" where
  "componentDidUpdate this = this"

definition onAutoSubscriptionChangedUnbound ::
    "('p, 'v) Ambient \<Rightarrow> 'p ComponentBase \<Rightarrow> ('p, 'v, unit) Result" where
  "onAutoSubscriptionChangedUnbound amb that =
     (if \<not> isComponentMounted that then (Inr (), that, [])
      else
        (case buildStateWithAutoSubscriptions amb that (props that) False of
           (Inl e, that1, cs) \<Rightarrow> (Inl e, that1, cs)
         | (Inr newState, that1, cs) \<Rightarrow>
             (Inr (), that1,
              cs @ (case newState of
                      None \<Rightarrow> []
                    | Some d \<Rightarrow> if length (map fst d) \<noteq> 0 then [SetState d] else []))))"

subsection \<open>The host's lifecycle\<close>

text \<open>
  The events the host framework delivers to one instance: a props evaluation (the static
  \<^verbatim>\<open>getDerivedStateFromProps\<close> with the state the constructor installed, which leads back
  to the instance), mount, update, unmount, and a store invoking the instance's callback
  \<^verbatim>\<open>_onAutoSubscriptionChanged\<close>. After a props evaluation that returns, the host installs
  the next props on the instance. An exception ends the run. This is the host's side of the
  contract; each event is delivered together with what surrounds the instance at that moment.
\<close>

datatype 'p Event =
    GetDerivedStateFromProps 'p
  | ComponentDidMount
  | ComponentDidUpdate
  | ComponentWillUnmount
  | OnAutoSubscriptionChanged

fun deliver ::
    "('p, 'v) Ambient \<Rightarrow> 'p ComponentBase \<Rightarrow> 'p Event \<Rightarrow>
       exception option \<times> 'p ComponentBase \<times> ('p, 'v) Call list" where
  "deliver amb this (GetDerivedStateFromProps nextProps) =
     (case getDerivedStateFromProps amb nextProps (Some \<lparr>getInstance = Some this\<rparr>) of
        (Inl e, instance, cs) \<Rightarrow> (Some e, (case instance of None \<Rightarrow> this | Some i \<Rightarrow> i), cs)
      | (Inr d, instance, cs) \<Rightarrow>
          (None, (case instance of None \<Rightarrow> this | Some i \<Rightarrow> i)\<lparr>props := nextProps\<rparr>, cs))"
| "deliver amb this ComponentDidMount = (None, componentDidMount this, [])"
| "deliver amb this ComponentDidUpdate = (None, componentDidUpdate this, [])"
| "deliver amb this ComponentWillUnmount =
     (case componentWillUnmount this of (this1, cs) \<Rightarrow> (None, this1, cs))"
| "deliver amb this OnAutoSubscriptionChanged =
     (case onAutoSubscriptionChangedUnbound amb this of
        (Inl e, this1, cs) \<Rightarrow> (Some e, this1, cs)
      | (Inr u, this1, cs) \<Rightarrow> (None, this1, cs))"

fun lifecycle ::
    "'p ComponentBase \<Rightarrow> (('p, 'v) Ambient \<times> 'p Event) list \<Rightarrow>
       exception option \<times> 'p ComponentBase \<times> ('p, 'v) Call list" where
  "lifecycle this [] = (None, this, [])"
| "lifecycle this ((amb, e) # es) =
     (case deliver amb this e of
        (Some x, this1, cs) \<Rightarrow> (Some x, this1, cs)
      | (None, this1, cs) \<Rightarrow>
          (case lifecycle this1 es of (r, this2, ds) \<Rightarrow> (r, this2, cs @ ds)))"

subsection \<open>The store-side index\<close>

text \<open>
  What a store's index keeps of a subscription object: its store, key and callback. The mark
  is mutable and not part of the object's identity.
\<close>

definition subscriptionHandle :: "AutoSubscription \<Rightarrow> StoreBase \<times> string \<times> nat" where
  "subscriptionHandle s = (store s, key s, callback s)"

text \<open>
  Modelled from the spec: the subscription index of \<^verbatim>\<open>StoreBase.ts\<close>, with its methods
  \<^verbatim>\<open>trackAutoSubscription\<close>, which registers the subscription in the index of its store,
  and \<^verbatim>\<open>removeAutoSubscription\<close>, which deregisters it; nothing else changes an index.
  The indexes of all stores are kept in one list, each entry naming its store; \<open>storeIndex\<close>
  is the list after the given calls.
\<close>

fun storeIndex ::
    "(StoreBase \<times> string \<times> nat) list \<Rightarrow> ('p, 'v) Call list \<Rightarrow> (StoreBase \<times> string \<times> nat) list" where
  "storeIndex idx [] = idx"
| "storeIndex idx (TrackAutoSubscription s # cs) = storeIndex (idx @ [subscriptionHandle s]) cs"
| "storeIndex idx (RemoveAutoSubscription s # cs) = storeIndex (remove1 (subscriptionHandle s) idx) cs"
| "storeIndex idx (c # cs) = storeIndex idx cs"

subsection \<open>Vocabulary of the properties\<close>

text \<open>A subscription answers a read of \<open>k\<close> on \<open>st\<close>: the test of \<^verbatim>\<open>_findMatchingAutoSubscription\<close>.\<close>

definition matchesRead :: "StoreBase \<Rightarrow> string \<Rightarrow> AutoSubscription \<Rightarrow> bool" where
  "matchesRead st k s = (storeId (store s) = storeId st \<and> (key s = k \<or> key s = Key_All))"

text \<open>The (storeId, key) pair of a subscription and of a read.\<close>

definition subscriptionPair :: "AutoSubscription \<Rightarrow> string \<times> string" where
  "subscriptionPair s = (storeId (store s), key s)"

definition readPair :: "StoreBase \<times> string \<Rightarrow> string \<times> string" where
  "readPair r = (storeId (fst r), snd r)"

text \<open>
  The \<^verbatim>\<open>Key_All\<close> absorption rule, read off the test of
  \<^verbatim>\<open>_findMatchingAutoSubscription\<close>. A subscription created for the read \<open>q\<close> answers
  the read \<open>r\<close> when it has the storeId of \<open>r\<close> and the key of \<open>r\<close> or \<^verbatim>\<open>Key_All\<close>.
  A read is absorbed within a build when the first read of the build whose subscription would
  answer it is a \<^verbatim>\<open>Key_All\<close> read and not a read of its own key.
\<close>

definition answersAsNew :: "StoreBase \<times> string \<Rightarrow> StoreBase \<times> string \<Rightarrow> bool" where
  "answersAsNew r q =
     (storeId (fst q) = storeId (fst r) \<and> (snd q = snd r \<or> snd q = Key_All))"

definition absorbedInBuild :: "(StoreBase \<times> string) list \<Rightarrow> StoreBase \<times> string \<Rightarrow> bool" where
  "absorbedInBuild rs r =
     (case List.find (answersAsNew r) rs of None \<Rightarrow> False | Some q \<Rightarrow> snd q \<noteq> snd r)"

text \<open>
  The (storeId, key) pair that represents a read in the registry after a build with the reads
  \<open>rs\<close>, started from the registry of \<open>this\<close>: the pair of the subscription that
  \<^verbatim>\<open>_findMatchingAutoSubscription\<close> finds for the read in the starting registry (the one for
  the read's own key, or a \<^verbatim>\<open>Key_All\<close> subscription that absorbs it), if there is one;
  otherwise (storeId, \<^verbatim>\<open>Key_All\<close>) if an earlier \<^verbatim>\<open>Key_All\<close> read of the build absorbs it,
  and the read's own pair if nothing absorbs it.
\<close>

definition representative ::
    "'p ComponentBase \<Rightarrow> (StoreBase \<times> string) list \<Rightarrow> StoreBase \<times> string \<Rightarrow> string \<times> string" where
  "representative this rs r =
     (case findMatchingAutoSubscription this (fst r) (snd r) of
        Some i \<Rightarrow> subscriptionPair (handledAutoSubscriptions this ! i)
      | None \<Rightarrow> if absorbedInBuild rs r then (storeId (fst r), Key_All) else readPair r)"


fun isComparison :: "('p, 'v) Call \<Rightarrow> bool" where
  "isComparison (ShouldComponentUpdateComparator a b) = True"
| "isComparison c = False"

subsection \<open>Auxiliary notions of the proofs\<close>

text \<open>
  The registry as one intercepted read leaves it, and as a whole build's reads leave it before
  the sweep; both are proved below to be what \<open>handleAutoSubscribe\<close> and
  \<open>enableAutoSubscribe\<close> compute.
\<close>

definition unmark :: "AutoSubscription \<Rightarrow> AutoSubscription" where
  "unmark s = s\<lparr>used := False\<rparr>"

definition markRead ::
    "nat \<Rightarrow> AutoSubscription list \<Rightarrow> StoreBase \<times> string \<Rightarrow> AutoSubscription list" where
  "markRead cb L r =
     (case utils_find L (matchesRead (fst r) (snd r)) of
        Some i \<Rightarrow> L[i := (L ! i)\<lparr>used := True\<rparr>]
      | None \<Rightarrow> L @ [\<lparr>store = fst r, key = snd r, callback = cb, used = True\<rparr>])"

definition afterReads :: "'p ComponentBase \<Rightarrow> (StoreBase \<times> string) list \<Rightarrow> AutoSubscription list" where
  "afterReads this rs =
     foldl (markRead (onAutoSubscriptionChanged this))
       (map unmark (handledAutoSubscriptions this)) rs"

text \<open>Every marked subscription is the one \<^verbatim>\<open>find\<close> yields for some read of \<open>R\<close>.\<close>

definition firstFor :: "(StoreBase \<times> string) set \<Rightarrow> AutoSubscription list \<Rightarrow> bool" where
  "firstFor R L =
     (\<forall>i<length L. used (L ! i) \<longrightarrow>
        (\<exists>r\<in>R. utils_find L (matchesRead (fst r) (snd r)) = Some i))"

text \<open>No subscription of the list is a \<^verbatim>\<open>Key_All\<close> subscription on a store with this storeId.\<close>

definition noKeyAll :: "string \<Rightarrow> AutoSubscription list \<Rightarrow> bool" where
  "noKeyAll sid L = (\<forall>s\<in>set L. \<not> (storeId (store s) = sid \<and> key s = Key_All))"

text \<open>Some subscription of the list is a \<^verbatim>\<open>Key_All\<close> subscription on a store with this storeId.\<close>

definition hasKeyAll :: "string \<Rightarrow> AutoSubscription list \<Rightarrow> bool" where
  "hasKeyAll sid L = (\<exists>s\<in>set L. storeId (store s) = sid \<and> key s = Key_All)"

text \<open>
  The part of a store-side index that belongs to one owner (the entries carrying its callback),
  and the index agreeing with the owner's registry: the same subscriptions, as often.
\<close>

definition ownerIndex ::
    "nat \<Rightarrow> (StoreBase \<times> string \<times> nat) list \<Rightarrow> (StoreBase \<times> string \<times> nat) list" where
  "ownerIndex cb idx = filter (\<lambda>h. snd (snd h) = cb) idx"

definition inSync :: "'p ComponentBase \<Rightarrow> (StoreBase \<times> string \<times> nat) list \<Rightarrow> bool" where
  "inSync this idx =
     (mset (ownerIndex (onAutoSubscriptionChanged this) idx) =
      mset (map subscriptionHandle (handledAutoSubscriptions this)))"

text \<open>
  The reads of a build that create a subscription: no subscription of the list answers them
  and no earlier \<^verbatim>\<open>Key_All\<close> read of the build absorbs them.
\<close>

definition creating ::
    "AutoSubscription list \<Rightarrow> (StoreBase \<times> string) list \<Rightarrow> (StoreBase \<times> string) set" where
  "creating L rs =
     {r \<in> set rs. utils_find L (matchesRead (fst r) (snd r)) = None \<and> \<not> absorbedInBuild rs r}"

subsection \<open>Concrete stores, owners and builds\<close>

definition storeA :: StoreBase where
  "storeA = \<lparr>storeObject = 1, storeId = ''A''\<rparr>"

definition storeB :: StoreBase where
  "storeB = \<lparr>storeObject = 2, storeId = ''B''\<rparr>"

definition subscriptionOf :: "StoreBase \<Rightarrow> string \<Rightarrow> bool \<Rightarrow> AutoSubscription" where
  "subscriptionOf st k u = \<lparr>store = st, key = k, callback = 7, used = u\<rparr>"

definition ownerWith :: "AutoSubscription list \<Rightarrow> bool \<Rightarrow> nat ComponentBase" where
  "ownerWith L m =
     \<lparr>handledAutoSubscriptions = L, isMounted = m, props = 0, onAutoSubscriptionChanged = 7\<rparr>"

definition ambientWith ::
    "(StoreBase \<times> string) list \<Rightarrow> exception + nat Dictionary option \<Rightarrow> (nat, nat) Ambient" where
  "ambientWith rs out =
     \<lparr>shouldComponentUpdateComparator = (\<lambda>a b. a = b), instrumentationImpl = False,
      buildState = (\<lambda>p initialBuild. \<lparr>reads = rs, outcome = out\<rparr>)\<rparr>"

definition alwaysEqual :: "('p, 'v) Ambient \<Rightarrow> ('p, 'v) Ambient" where
  "alwaysEqual amb = amb\<lparr>shouldComponentUpdateComparator := (\<lambda>a b. True)\<rparr>"

definition ambientDefault :: "(nat, nat) Ambient" where
  "ambientDefault =
     \<lparr>shouldComponentUpdateComparator = (\<lambda>a b. a = b), instrumentationImpl = True,
      buildState = buildState_default\<rparr>"

section \<open>Lemmas\<close>

lemma utils_find_None: "(utils_find xs P = None) = (\<forall>x\<in>set xs. \<not> P x)"
  by (induction xs) auto

lemma utils_find_Some:
  "(utils_find xs P = Some i) = (i < length xs \<and> P (xs ! i) \<and> (\<forall>j<i. \<not> P (xs ! j)))"
proof (induction xs arbitrary: i)
  case Nil
  then show ?case by simp
next
  case (Cons x xs)
  show ?case
  proof (cases "P x")
    case True
    then show ?thesis by (cases i) auto
  next
    case False
    show ?thesis
    proof (cases i)
      case 0
      with False show ?thesis by auto
    next
      case (Suc n)
      have "(\<forall>j<Suc n. \<not> P ((x # xs) ! j)) = (\<forall>j<n. \<not> P (xs ! j))"
        using False by (auto simp: less_Suc_eq_0_disj)
      with False Suc Cons.IH [of n] show ?thesis by auto
    qed
  qed
qed

lemma utils_find_cong: "map P xs = map P ys \<Longrightarrow> utils_find xs P = utils_find ys P"
proof (induction xs arbitrary: ys)
  case Nil
  then show ?case by simp
next
  case (Cons x xs)
  then show ?case by (cases ys) auto
qed

lemma utils_find_append:
  "utils_find (xs @ ys) P =
     (case utils_find xs P of Some i \<Rightarrow> Some i
      | None \<Rightarrow> map_option (\<lambda>j. length xs + j) (utils_find ys P))"
proof (induction xs)
  case Nil
  then show ?case by (cases "utils_find ys P") auto
next
  case (Cons x xs)
  then show ?case
    by (cases "utils_find xs P"; cases "utils_find ys P") auto
qed

lemma utils_remove_sweep:
  "utils_remove xs (\<lambda>subscription.
       if shouldRemoveAndCleanupAutoSubscription subscription
       then (True, [RemoveAutoSubscription subscription]) else (False, [])) =
     (filter used xs, map RemoveAutoSubscription (filter (\<lambda>s. \<not> used s) xs))"
  by (induction xs) (auto simp: shouldRemoveAndCleanupAutoSubscription_def)

lemma findMatching_matchesRead:
  "findMatchingAutoSubscription this st k =
     utils_find (handledAutoSubscriptions this) (matchesRead st k)"
  unfolding findMatchingAutoSubscription_def matchesRead_def ..

lemma matchesRead_used [simp]: "matchesRead st k (s\<lparr>used := b\<rparr>) = matchesRead st k s"
  by (simp add: matchesRead_def)

lemma matchesRead_unmark [simp]: "matchesRead st k (unmark s) = matchesRead st k s"
  by (simp add: unmark_def)

lemma handleAutoSubscribe_markRead:
  "handleAutoSubscribe this st k =
     (this\<lparr>handledAutoSubscriptions :=
         markRead (onAutoSubscriptionChanged this) (handledAutoSubscriptions this) (st, k)\<rparr>,
      map TrackAutoSubscription
        (drop (length (handledAutoSubscriptions this))
           (markRead (onAutoSubscriptionChanged this) (handledAutoSubscriptions this) (st, k))))"
  by (cases "utils_find (handledAutoSubscriptions this) (matchesRead st k)")
     (simp_all add: handleAutoSubscribe_def findMatching_matchesRead markRead_def Let_def)

lemma length_markRead: "length L \<le> length (markRead cb L r)"
  by (simp add: markRead_def split: option.splits)

lemma length_foldl_markRead: "length L \<le> length (foldl (markRead cb) L rs)"
proof (induction rs arbitrary: L)
  case Nil
  then show ?case by simp
next
  case (Cons r rs)
  have "length L \<le> length (markRead cb L r)" by (rule length_markRead)
  also have "\<dots> \<le> length (foldl (markRead cb) (markRead cb L r) rs)" by (rule Cons.IH)
  finally show ?case by simp
qed

lemma mark_used_id: "used s \<Longrightarrow> s\<lparr>used := True\<rparr> = s"
  by (cases s) simp

lemma markRead_nth_used:
  assumes "i < length L" and "used (L ! i)"
  shows "markRead cb L r ! i = L ! i"
proof (cases "utils_find L (matchesRead (fst r) (snd r))")
  case None
  with assms show ?thesis by (simp add: markRead_def nth_append)
next
  case (Some j)
  with assms show ?thesis
    by (cases "i = j") (simp_all add: markRead_def mark_used_id)
qed

lemma markRead_new_used:
  assumes "length L \<le> i" and "i < length (markRead cb L r)"
  shows "used (markRead cb L r ! i)"
proof (cases "utils_find L (matchesRead (fst r) (snd r))")
  case None
  with assms have "i = length L" by (simp add: markRead_def)
  with None show ?thesis by (simp add: markRead_def)
next
  case (Some j)
  with assms show ?thesis by (simp add: markRead_def)
qed

lemma foldl_markRead_nth_used:
  "i < length L \<Longrightarrow> used (L ! i) \<Longrightarrow> foldl (markRead cb) L rs ! i = L ! i"
proof (induction rs arbitrary: L)
  case Nil
  then show ?case by simp
next
  case (Cons r rs)
  have l: "i < length (markRead cb L r)"
    using Cons.prems(1) length_markRead [of L cb r] by simp
  have e: "markRead cb L r ! i = L ! i"
    using Cons.prems by (rule markRead_nth_used)
  with Cons.prems have "used (markRead cb L r ! i)" by simp
  with l have "foldl (markRead cb) (markRead cb L r) rs ! i = markRead cb L r ! i"
    by (rule Cons.IH)
  with e show ?case by simp
qed

lemma drop_markRead_foldl:
  "drop (length L) (foldl (markRead cb) (markRead cb L r) rs) =
     drop (length L) (markRead cb L r) @
     drop (length (markRead cb L r)) (foldl (markRead cb) (markRead cb L r) rs)"
proof -
  define L1 where "L1 = markRead cb L r"
  define F where "F = foldl (markRead cb) L1 rs"
  have ab: "length L \<le> length L1" unfolding L1_def by (rule length_markRead)
  have bf: "length L1 \<le> length F" unfolding F_def by (rule length_foldl_markRead)
  have "drop (length L) F = drop (length L) (take (length L1) F @ drop (length L1) F)"
    by simp
  also have "\<dots> = drop (length L) (take (length L1) F) @ drop (length L1) F"
    using ab bf by (simp del: append_take_drop_id)
  also have "drop (length L) (take (length L1) F) = drop (length L) L1"
  proof (rule nth_equalityI)
    show "length (drop (length L) (take (length L1) F)) = length (drop (length L) L1)"
      using bf by simp
  next
    fix i
    assume "i < length (drop (length L) (take (length L1) F))"
    then have i: "length L + i < length L1" using bf by simp
    then have "used (L1 ! (length L + i))"
      unfolding L1_def by (intro markRead_new_used) simp_all
    with i have "F ! (length L + i) = L1 ! (length L + i)"
      unfolding F_def by (rule foldl_markRead_nth_used)
    with i ab bf show "drop (length L) (take (length L1) F) ! i = drop (length L) L1 ! i"
      by simp
  qed
  finally show ?thesis unfolding F_def L1_def .
qed

lemma enableAutoSubscribe_foldl:
  "enableAutoSubscribe this rs =
     (this\<lparr>handledAutoSubscriptions :=
         foldl (markRead (onAutoSubscriptionChanged this)) (handledAutoSubscriptions this) rs\<rparr>,
      map TrackAutoSubscription
        (drop (length (handledAutoSubscriptions this))
           (foldl (markRead (onAutoSubscriptionChanged this)) (handledAutoSubscriptions this) rs)))"
proof (induction rs arbitrary: this)
  case Nil
  then show ?case by simp
next
  case (Cons r rs)
  obtain st k where r: "r = (st, k)" by (cases r)
  show ?case
    unfolding r
    by (simp add: autoSubscribeHandler_handle_def handleAutoSubscribe_markRead Cons.IH
        drop_markRead_foldl)
qed

lemma markRead_find_preserved:
  assumes "utils_find L (matchesRead st k) = Some i"
  shows "utils_find (markRead cb L r) (matchesRead st k) = Some i"
proof (cases "utils_find L (matchesRead (fst r) (snd r))")
  case None
  with assms show ?thesis by (simp add: markRead_def utils_find_append)
next
  case (Some j)
  from Some have "j < length L" by (simp add: utils_find_Some)
  then have "map (matchesRead st k) (L[j := (L ! j)\<lparr>used := True\<rparr>]) = map (matchesRead st k) L"
    by (simp add: list_eq_iff_nth_eq nth_list_update)
  then have "utils_find (L[j := (L ! j)\<lparr>used := True\<rparr>]) (matchesRead st k) =
      utils_find L (matchesRead st k)"
    by (rule utils_find_cong)
  with Some assms show ?thesis by (simp add: markRead_def)
qed

lemma foldl_markRead_find_preserved:
  "utils_find L (matchesRead st k) = Some i \<Longrightarrow>
     utils_find (foldl (markRead cb) L rs) (matchesRead st k) = Some i"
  by (induction rs arbitrary: L) (simp_all add: markRead_find_preserved)

lemma markRead_None:
  assumes "utils_find L (matchesRead (fst r) (snd r)) = None"
  shows "markRead cb L r = L @ [\<lparr>store = fst r, key = snd r, callback = cb, used = True\<rparr>]"
    and "utils_find (markRead cb L r) (matchesRead (fst r) (snd r)) = Some (length L)"
  using assms by (simp_all add: markRead_def utils_find_append matchesRead_def)

lemma markRead_Some:
  assumes "utils_find L (matchesRead (fst r) (snd r)) = Some j"
  shows "markRead cb L r = L[j := (L ! j)\<lparr>used := True\<rparr>]"
    and "utils_find (markRead cb L r) (matchesRead (fst r) (snd r)) = Some j"
    and "j < length L"
proof -
  show "markRead cb L r = L[j := (L ! j)\<lparr>used := True\<rparr>]"
    using assms by (simp add: markRead_def)
  show "utils_find (markRead cb L r) (matchesRead (fst r) (snd r)) = Some j"
    using assms by (rule markRead_find_preserved)
  show "j < length L" using assms by (simp add: utils_find_Some)
qed

lemma firstFor_markRead:
  assumes "firstFor R L"
  shows "firstFor (insert r R) (markRead cb L r)"
  unfolding firstFor_def
proof (intro allI impI)
  fix i
  assume i: "i < length (markRead cb L r)" and u: "used (markRead cb L r ! i)"
  have old: "\<exists>r'\<in>insert r R. utils_find (markRead cb L r) (matchesRead (fst r') (snd r')) = Some i"
    if il: "i < length L" and e: "markRead cb L r ! i = L ! i"
  proof -
    from u e have "used (L ! i)" by simp
    with assms il obtain r' where r': "r' \<in> R"
      and f: "utils_find L (matchesRead (fst r') (snd r')) = Some i"
      unfolding firstFor_def by blast
    from f have "utils_find (markRead cb L r) (matchesRead (fst r') (snd r')) = Some i"
      by (rule markRead_find_preserved)
    with r' show ?thesis by blast
  qed
  show "\<exists>r'\<in>insert r R. utils_find (markRead cb L r) (matchesRead (fst r') (snd r')) = Some i"
  proof (cases "utils_find L (matchesRead (fst r) (snd r))")
    case None
    note m = markRead_None [OF None]
    show ?thesis
    proof (cases "i = length L")
      case True
      with m(2) show ?thesis by blast
    next
      case False
      with i m(1) have il: "i < length L" by simp
      with m(1) have "markRead cb L r ! i = L ! i" by (simp add: nth_append)
      with il show ?thesis by (rule old)
    qed
  next
    case (Some j)
    note m = markRead_Some [OF Some]
    show ?thesis
    proof (cases "i = j")
      case True
      with m(2) show ?thesis by blast
    next
      case False
      from i m(1) have il: "i < length L" by simp
      from False m(1) have "markRead cb L r ! i = L ! i" by simp
      with il show ?thesis by (rule old)
    qed
  qed
qed

lemma firstFor_mono: "firstFor R L \<Longrightarrow> R \<subseteq> R' \<Longrightarrow> firstFor R' L"
  unfolding firstFor_def by blast

lemma firstFor_foldl:
  "firstFor R L \<Longrightarrow> firstFor (R \<union> set rs) (foldl (markRead cb) L rs)"
proof (induction rs arbitrary: R L)
  case Nil
  then show ?case by simp
next
  case (Cons r rs)
  from Cons.prems have "firstFor (insert r R) (markRead cb L r)" by (rule firstFor_markRead)
  then have "firstFor (insert r R \<union> set rs) (foldl (markRead cb) (markRead cb L r) rs)"
    by (rule Cons.IH)
  then show ?case by simp
qed

lemma firstFor_unmarked: "firstFor {} (map unmark L)"
  by (simp add: firstFor_def unmark_def)

lemma markRead_marks:
  "\<exists>i<length (markRead cb L r).
      utils_find (markRead cb L r) (matchesRead (fst r) (snd r)) = Some i \<and>
      used (markRead cb L r ! i)"
proof (cases "utils_find L (matchesRead (fst r) (snd r))")
  case None
  note m = markRead_None [OF None]
  have "length L < length (markRead cb L r)" using m(1) [of cb] by simp
  moreover have "used (markRead cb L r ! length L)" using m(1) [of cb] by simp
  ultimately show ?thesis using m(2) [of cb] by blast
next
  case (Some j)
  note m = markRead_Some [OF Some]
  have "j < length (markRead cb L r)" using m(1) [of cb] m(3) by simp
  moreover have "used (markRead cb L r ! j)" using m(1) [of cb] m(3) by simp
  ultimately show ?thesis using m(2) [of cb] by blast
qed

lemma covered_foldl:
  "r \<in> set rs \<Longrightarrow>
     \<exists>i<length (foldl (markRead cb) L rs).
        utils_find (foldl (markRead cb) L rs) (matchesRead (fst r) (snd r)) = Some i \<and>
        used (foldl (markRead cb) L rs ! i)"
proof (induction rs arbitrary: L)
  case Nil
  then show ?case by simp
next
  case (Cons a rs)
  show ?case
  proof (cases "r = a")
    case True
    obtain i where i: "i < length (markRead cb L a)"
      and f: "utils_find (markRead cb L a) (matchesRead (fst r) (snd r)) = Some i"
      and u: "used (markRead cb L a ! i)"
      using markRead_marks [of cb L a] True by blast
    have "foldl (markRead cb) (markRead cb L a) rs ! i = markRead cb L a ! i"
      using i u by (rule foldl_markRead_nth_used)
    moreover have "i < length (foldl (markRead cb) (markRead cb L a) rs)"
      using i length_foldl_markRead [of "markRead cb L a" cb rs] by simp
    ultimately show ?thesis
      using u foldl_markRead_find_preserved [OF f, of cb rs] by auto
  next
    case False
    with Cons.prems have "r \<in> set rs" by simp
    from Cons.IH [OF this, of "markRead cb L a"] show ?thesis by simp
  qed
qed

lemma find_filter:
  "utils_find L P = Some i \<Longrightarrow> U (L ! i) \<Longrightarrow>
     utils_find (filter U L) P = Some (length (filter U (take i L)))"
proof (induction L arbitrary: i)
  case Nil
  then show ?case by simp
next
  case (Cons x xs)
  show ?case
  proof (cases "P x")
    case True
    with Cons.prems show ?thesis by simp
  next
    case False
    with Cons.prems obtain n where n: "utils_find xs P = Some n" and i: "i = Suc n"
      by (cases "utils_find xs P") auto
    with Cons.prems have "U (xs ! n)" by simp
    with n have "utils_find (filter U xs) P = Some (length (filter U (take n xs)))"
      by (rule Cons.IH)
    with False i show ?thesis by simp
  qed
qed

lemma filter_index:
  "i < length (filter U L) \<Longrightarrow>
     \<exists>j<length L. U (L ! j) \<and> i = length (filter U (take j L)) \<and> filter U L ! i = L ! j"
proof (induction L arbitrary: i)
  case Nil
  then show ?case by simp
next
  case (Cons x xs)
  show ?case
  proof (cases "U x")
    case False
    with Cons.prems have "i < length (filter U xs)" by simp
    from Cons.IH [OF this] obtain j where "j < length xs" "U (xs ! j)"
      "i = length (filter U (take j xs))" "filter U xs ! i = xs ! j" by blast
    with False have "Suc j < length (x # xs) \<and> U ((x # xs) ! Suc j) \<and>
        i = length (filter U (take (Suc j) (x # xs))) \<and>
        filter U (x # xs) ! i = (x # xs) ! Suc j" by simp
    then show ?thesis by blast
  next
    case True
    show ?thesis
    proof (cases i)
      case 0
      with True have "0 < length (x # xs) \<and> U ((x # xs) ! 0) \<and>
        i = length (filter U (take 0 (x # xs))) \<and>
        filter U (x # xs) ! i = (x # xs) ! 0" by simp
      then show ?thesis by blast
    next
      case (Suc n)
      with True Cons.prems have "n < length (filter U xs)" by simp
      from Cons.IH [OF this] obtain j where "j < length xs" "U (xs ! j)"
        "n = length (filter U (take j xs))" "filter U xs ! n = xs ! j" by blast
      with True Suc have "Suc j < length (x # xs) \<and> U ((x # xs) ! Suc j) \<and>
        i = length (filter U (take (Suc j) (x # xs))) \<and>
        filter U (x # xs) ! i = (x # xs) ! Suc j" by simp
      then show ?thesis by blast
    qed
  qed
qed

lemma firstFor_filter:
  assumes "firstFor R L" and "i < length (filter used L)"
  shows "\<exists>r\<in>R. utils_find (filter used L) (matchesRead (fst r) (snd r)) = Some i"
proof -
  from filter_index [OF assms(2)] obtain j where j: "j < length L" "used (L ! j)"
    and i: "i = length (filter used (take j L))" by blast
  with assms(1) obtain r where r: "r \<in> R"
    and f: "utils_find L (matchesRead (fst r) (snd r)) = Some j"
    unfolding firstFor_def by blast
  from find_filter [OF f, of used] j i
  have "utils_find (filter used L) (matchesRead (fst r) (snd r)) = Some i" by simp
  with r show ?thesis by blast
qed

lemma build_completed:
  assumes "outcome (buildState amb p initialBuild) = Inr state"
  shows "buildStateWithAutoSubscriptions amb this p initialBuild =
     (Inr state,
      this\<lparr>handledAutoSubscriptions :=
        filter used (afterReads this (reads (buildState amb p initialBuild)))\<rparr>,
      (if instrumentationImpl amb then [BeginBuildState] else []) @
      [BuildState p initialBuild] @
      map TrackAutoSubscription
        (drop (length (handledAutoSubscriptions this))
           (afterReads this (reads (buildState amb p initialBuild)))) @
      (if instrumentationImpl amb then [EndBuildState] else []) @
      map RemoveAutoSubscription
        (filter (\<lambda>s. \<not> used s) (afterReads this (reads (buildState amb p initialBuild)))))"
  using assms
  by (simp add: buildStateWithAutoSubscriptions_def enableAutoSubscribe_foldl utils_remove_sweep
      afterReads_def unmark_def [abs_def] Let_def)

lemma build_fault:
  assumes "outcome (buildState amb p initialBuild) = Inl e"
  shows "buildStateWithAutoSubscriptions amb this p initialBuild =
     (Inl e,
      this\<lparr>handledAutoSubscriptions := afterReads this (reads (buildState amb p initialBuild))\<rparr>,
      (if instrumentationImpl amb then [BeginBuildState] else []) @
      [BuildState p initialBuild] @
      map TrackAutoSubscription
        (drop (length (handledAutoSubscriptions this))
           (afterReads this (reads (buildState amb p initialBuild)))))"
  using assms
  by (simp add: buildStateWithAutoSubscriptions_def enableAutoSubscribe_foldl
      afterReads_def unmark_def [abs_def] Let_def)

lemma build_Inr_outcome:
  assumes "buildStateWithAutoSubscriptions amb this p initialBuild = (Inr state, this', calls)"
  shows "outcome (buildState amb p initialBuild) = Inr state"
proof (cases "outcome (buildState amb p initialBuild)")
  case (Inl e)
  from build_fault [OF Inl, of this] assms show ?thesis by simp
next
  case (Inr s)
  from build_completed [OF Inr, of this] assms Inr show ?thesis by simp
qed

lemma firstFor_afterReads: "firstFor (set rs) (afterReads this rs)"
proof -
  have "firstFor ({} \<union> set rs) (afterReads this rs)"
    unfolding afterReads_def by (rule firstFor_foldl) (rule firstFor_unmarked)
  then show ?thesis by simp
qed

lemma swept_first:
  assumes "i < length (filter used (afterReads this rs))"
  shows "\<exists>r\<in>set rs.
           utils_find (filter used (afterReads this rs)) (matchesRead (fst r) (snd r)) = Some i"
  using firstFor_afterReads assms by (rule firstFor_filter)

lemma matchesRead_pair:
  "subscriptionPair a = subscriptionPair b \<Longrightarrow> matchesRead st k a = matchesRead st k b"
  by (simp add: subscriptionPair_def matchesRead_def)

lemma distinct_first:
  assumes "\<And>i. i < length c \<Longrightarrow> \<exists>r. utils_find c (matchesRead (fst r) (snd r)) = Some i"
  shows "distinct (map subscriptionPair c)"
proof -
  have ne: "subscriptionPair (c ! i) \<noteq> subscriptionPair (c ! j)"
    if "i < j" and "j < length c" for i j
  proof
    assume e: "subscriptionPair (c ! i) = subscriptionPair (c ! j)"
    from assms [OF that(2)] obtain r
      where "utils_find c (matchesRead (fst r) (snd r)) = Some j" by blast
    then have "matchesRead (fst r) (snd r) (c ! j)" and "\<not> matchesRead (fst r) (snd r) (c ! i)"
      using that(1) by (simp_all add: utils_find_Some)
    with matchesRead_pair [OF e] show False by simp
  qed
  show ?thesis
    unfolding distinct_conv_nth
  proof (intro allI impI)
    fix i j
    assume "i < length (map subscriptionPair c)" "j < length (map subscriptionPair c)" "i \<noteq> j"
    then consider "i < j" "j < length c" | "j < i" "i < length c" by force
    then show "map subscriptionPair c ! i \<noteq> map subscriptionPair c ! j"
    proof cases
      case 1
      with ne [of i j] show ?thesis by simp
    next
      case 2
      with ne [of j i] show ?thesis by simp
    qed
  qed
qed

lemma key_markRead:
  "s \<in> set (markRead cb L r) \<Longrightarrow> key s \<in> key ` set L \<union> {snd r}"
proof (cases "utils_find L (matchesRead (fst r) (snd r))")
  case None
  assume "s \<in> set (markRead cb L r)"
  with markRead_None(1) [OF None, of cb] show ?thesis by auto
next
  case (Some j)
  assume "s \<in> set (markRead cb L r)"
  with markRead_Some(1) [OF Some, of cb] have "s \<in> set (L[j := (L ! j)\<lparr>used := True\<rparr>])" by simp
  then have "s = (L ! j)\<lparr>used := True\<rparr> \<or> s \<in> set L"
    using set_update_subset_insert [of L j "(L ! j)\<lparr>used := True\<rparr>"] by auto
  moreover have "L ! j \<in> set L" using markRead_Some(3) [OF Some] by simp
  ultimately show ?thesis by auto
qed

lemma key_foldl_markRead:
  "s \<in> set (foldl (markRead cb) L rs) \<Longrightarrow> key s \<in> key ` set L \<union> snd ` set rs"
proof (induction rs arbitrary: L)
  case Nil
  then show ?case by simp
next
  case (Cons r rs)
  from Cons.IH [of "markRead cb L r"] Cons.prems
  have "key s \<in> key ` set (markRead cb L r) \<union> snd ` set rs" by simp
  then show ?case
  proof
    assume "key s \<in> key ` set (markRead cb L r)"
    then obtain x where x: "x \<in> set (markRead cb L r)" and k: "key s = key x" by auto
    from key_markRead [OF x] k show ?thesis by auto
  next
    assume "key s \<in> snd ` set rs"
    then show ?thesis by auto
  qed
qed

lemma key_afterReads:
  "s \<in> set (afterReads this rs) \<Longrightarrow>
     key s \<in> key ` set (handledAutoSubscriptions this) \<union> snd ` set rs"
  using key_foldl_markRead [of s "onAutoSubscriptionChanged this"
      "map unmark (handledAutoSubscriptions this)" rs]
  by (auto simp: afterReads_def unmark_def)

lemma swept_distinct: "distinct (map subscriptionPair (filter used (afterReads this rs)))"
proof (rule distinct_first)
  fix i
  assume "i < length (filter used (afterReads this rs))"
  from swept_first [OF this]
  show "\<exists>r. utils_find (filter used (afterReads this rs)) (matchesRead (fst r) (snd r)) = Some i"
    by blast
qed

lemma swept_covers:
  assumes "r \<in> set rs"
  shows "\<exists>s\<in>set (filter used (afterReads this rs)). matchesRead (fst r) (snd r) s"
proof -
  from covered_foldl [OF assms, of "onAutoSubscriptionChanged this"
      "map unmark (handledAutoSubscriptions this)"]
  obtain i where i: "i < length (afterReads this rs)"
    and f: "utils_find (afterReads this rs) (matchesRead (fst r) (snd r)) = Some i"
    and u: "used (afterReads this rs ! i)"
    unfolding afterReads_def by blast
  from f have "matchesRead (fst r) (snd r) (afterReads this rs ! i)"
    by (simp add: utils_find_Some)
  moreover from i u have "afterReads this rs ! i \<in> set (filter used (afterReads this rs))"
    by simp
  ultimately show ?thesis by blast
qed

lemma swept_needed:
  assumes "s \<in> set (filter used (afterReads this rs))"
  shows "used s \<and> (\<exists>r\<in>set rs. matchesRead (fst r) (snd r) s)"
proof -
  from assms obtain i where i: "i < length (filter used (afterReads this rs))"
    and s: "filter used (afterReads this rs) ! i = s"
    unfolding in_set_conv_nth by blast
  from swept_first [OF i] obtain r where r: "r \<in> set rs"
    and f: "utils_find (filter used (afterReads this rs)) (matchesRead (fst r) (snd r)) = Some i"
    by blast
  from f s have "matchesRead (fst r) (snd r) s" by (simp add: utils_find_Some)
  with r assms show ?thesis by auto
qed

lemma matchesRead_exact:
  "matchesRead st k s \<Longrightarrow> key s \<noteq> Key_All \<Longrightarrow> subscriptionPair s = readPair (st, k)"
  by (auto simp: matchesRead_def subscriptionPair_def readPair_def)

lemma swept_exact:
  assumes "\<forall>s\<in>set (handledAutoSubscriptions this). key s \<noteq> Key_All"
    and "\<forall>r\<in>set rs. snd r \<noteq> Key_All"
  shows "set (map subscriptionPair (filter used (afterReads this rs))) = readPair ` set rs"
proof -
  have nk: "key s \<noteq> Key_All" if "s \<in> set (filter used (afterReads this rs))" for s
  proof -
    from that have "s \<in> set (afterReads this rs)" by simp
    from key_afterReads [OF this] assms show ?thesis by auto
  qed
  show ?thesis
  proof (intro equalityI subsetI)
    fix x
    assume "x \<in> set (map subscriptionPair (filter used (afterReads this rs)))"
    then obtain s where s: "s \<in> set (filter used (afterReads this rs))"
      and x: "x = subscriptionPair s" by auto
    from swept_needed [OF s] obtain r where r: "r \<in> set rs"
      and m: "matchesRead (fst r) (snd r) s" by blast
    from matchesRead_exact [OF m nk [OF s]] x have "x = readPair r" by simp
    with r show "x \<in> readPair ` set rs" by blast
  next
    fix x
    assume "x \<in> readPair ` set rs"
    then obtain r where r: "r \<in> set rs" and x: "x = readPair r" by blast
    from swept_covers [OF r, of this] obtain s
      where s: "s \<in> set (filter used (afterReads this rs))"
        and m: "matchesRead (fst r) (snd r) s" by blast
    from matchesRead_exact [OF m nk [OF s]] x have "x = subscriptionPair s" by simp
    with s show "x \<in> set (map subscriptionPair (filter used (afterReads this rs)))" by auto
  qed
qed

lemma build_Inr_registry:
  assumes "buildStateWithAutoSubscriptions amb this p initialBuild = (Inr state, this', calls)"
  shows "handledAutoSubscriptions this' =
     filter used (afterReads this (reads (buildState amb p initialBuild)))"
  using build_completed [OF build_Inr_outcome [OF assms], of this] assms by auto

lemmas life_defs = getDerivedStateFromProps_def buildInitialState_def handleUpdate_def
  componentDidMount_def componentDidUpdate_def componentWillUnmount_def
  onAutoSubscriptionChangedUnbound_def isComponentMounted_def constructor_def

lemmas run_defs = buildStateWithAutoSubscriptions_def autoSubscribeHandler_handle_def
  handleAutoSubscribe_def findMatchingAutoSubscription_def
  shouldRemoveAndCleanupAutoSubscription_def Key_All_def storeA_def storeB_def
  subscriptionOf_def ownerWith_def ambientWith_def Let_def

lemma unmark_mark [simp]: "unmark (s\<lparr>used := b\<rparr>) = unmark s"
  by (simp add: unmark_def)

lemma unmark_idem [simp]: "unmark (unmark s) = unmark s"
  by (simp add: unmark_def)

lemma unmark_eq_used: "unmark a = unmark b \<Longrightarrow> used a = used b \<Longrightarrow> a = b"
  by (cases a, cases b) (simp add: unmark_def)

lemma markRead_prefix: "map unmark (take (length L) (markRead cb L r)) = map unmark L"
proof (cases "utils_find L (matchesRead (fst r) (snd r))")
  case None
  from markRead_None(1) [OF None, of cb] show ?thesis by simp
next
  case (Some j)
  have e: "markRead cb L r = L[j := (L ! j)\<lparr>used := True\<rparr>]"
    by (rule markRead_Some(1) [OF Some])
  have "map unmark (L[j := (L ! j)\<lparr>used := True\<rparr>]) = map unmark L"
  proof (rule nth_equalityI)
    show "length (map unmark (L[j := (L ! j)\<lparr>used := True\<rparr>])) = length (map unmark L)"
      by simp
  next
    fix i
    assume "i < length (map unmark (L[j := (L ! j)\<lparr>used := True\<rparr>]))"
    then have "i < length L" by simp
    then show "map unmark (L[j := (L ! j)\<lparr>used := True\<rparr>]) ! i = map unmark L ! i"
      by (cases "i = j") simp_all
  qed
  with e show ?thesis by simp
qed

lemma foldl_markRead_prefix:
  "map unmark (take (length L) (foldl (markRead cb) L rs)) = map unmark L"
proof (induction rs arbitrary: L)
  case Nil
  then show ?case by simp
next
  case (Cons r rs)
  define L1 where "L1 = markRead cb L r"
  define F where "F = foldl (markRead cb) L1 rs"
  have ab: "length L \<le> length L1" unfolding L1_def by (rule length_markRead)
  have ih: "map unmark (take (length L1) F) = map unmark L1"
    unfolding F_def by (rule Cons.IH)
  have "map unmark (take (length L) F) = take (length L) (map unmark (take (length L1) F))"
    using ab by (simp add: take_map min_def)
  also have "\<dots> = map unmark (take (length L) L1)"
    by (simp add: ih take_map)
  also have "\<dots> = map unmark L" unfolding L1_def by (rule markRead_prefix)
  finally show ?case unfolding F_def L1_def by simp
qed

lemma foldl_markRead_matched:
  "\<forall>r\<in>set rs. \<exists>i. utils_find L (matchesRead (fst r) (snd r)) = Some i \<Longrightarrow>
     length (foldl (markRead cb) L rs) = length L"
proof (induction rs arbitrary: L)
  case Nil
  then show ?case by simp
next
  case (Cons r rs)
  from Cons.prems obtain j where j: "utils_find L (matchesRead (fst r) (snd r)) = Some j"
    by auto
  have len: "length (markRead cb L r) = length L"
    using markRead_Some(1) [OF j, of cb] by simp
  have "\<forall>r'\<in>set rs. \<exists>i. utils_find (markRead cb L r) (matchesRead (fst r') (snd r')) = Some i"
  proof
    fix r'
    assume "r' \<in> set rs"
    with Cons.prems obtain i where "utils_find L (matchesRead (fst r') (snd r')) = Some i"
      by auto
    then have "utils_find (markRead cb L r) (matchesRead (fst r') (snd r')) = Some i"
      by (rule markRead_find_preserved)
    then show "\<exists>i. utils_find (markRead cb L r) (matchesRead (fst r') (snd r')) = Some i" ..
  qed
  from Cons.IH [OF this] len show ?case by simp
qed

lemma foldl_markRead_marked:
  assumes "r \<in> set rs" and "utils_find L (matchesRead (fst r) (snd r)) = Some i"
  shows "used (foldl (markRead cb) L rs ! i)"
proof -
  from covered_foldl [OF assms(1), of cb L] obtain i'
    where f: "utils_find (foldl (markRead cb) L rs) (matchesRead (fst r) (snd r)) = Some i'"
      and u: "used (foldl (markRead cb) L rs ! i')" by blast
  from foldl_markRead_find_preserved [OF assms(2), of cb rs] f have "i' = i" by simp
  with u show ?thesis by simp
qed

lemma utils_find_unmark:
  "utils_find (map unmark L) (matchesRead st k) = utils_find L (matchesRead st k)"
  by (rule utils_find_cong) simp

lemma swept_matched:
  assumes "r \<in> set rs"
  shows "\<exists>i. utils_find (map unmark (filter used (afterReads this rs)))
           (matchesRead (fst r) (snd r)) = Some i"
proof -
  from swept_covers [OF assms, of this] obtain s
    where s: "s \<in> set (filter used (afterReads this rs))"
      and m: "matchesRead (fst r) (snd r) s" by blast
  have "utils_find (filter used (afterReads this rs)) (matchesRead (fst r) (snd r)) \<noteq> None"
  proof
    assume "utils_find (filter used (afterReads this rs)) (matchesRead (fst r) (snd r)) = None"
    then have "\<forall>x\<in>set (filter used (afterReads this rs)). \<not> matchesRead (fst r) (snd r) x"
      by (rule iffD1 [OF utils_find_None])
    with s m show False by blast
  qed
  then obtain i
    where "utils_find (filter used (afterReads this rs)) (matchesRead (fst r) (snd r)) = Some i"
    by (cases "utils_find (filter used (afterReads this rs)) (matchesRead (fst r) (snd r))")
      simp_all
  then show ?thesis unfolding utils_find_unmark ..
qed

lemma swept_length:
  "length (foldl (markRead cb) (map unmark (filter used (afterReads this rs))) rs) =
     length (filter used (afterReads this rs))"
proof -
  have "\<forall>r\<in>set rs. \<exists>i. utils_find (map unmark (filter used (afterReads this rs)))
           (matchesRead (fst r) (snd r)) = Some i"
    using swept_matched by blast
  from foldl_markRead_matched [OF this, of cb] show ?thesis by simp
qed

lemma swept_remarked:
  assumes "i < length (filter used (afterReads this rs))"
  shows "used (foldl (markRead cb) (map unmark (filter used (afterReads this rs))) rs ! i)"
proof -
  from swept_first [OF assms] obtain r where r: "r \<in> set rs"
    and f: "utils_find (filter used (afterReads this rs)) (matchesRead (fst r) (snd r)) = Some i"
    by blast
  from f have "utils_find (map unmark (filter used (afterReads this rs)))
      (matchesRead (fst r) (snd r)) = Some i"
    unfolding utils_find_unmark .
  with r show ?thesis by (rule foldl_markRead_marked)
qed

lemma map_unmark_unmark: "map unmark (map unmark c) = map unmark c"
  by (rule nth_equalityI) simp_all

lemma swept_unmarked_same:
  "map unmark (foldl (markRead cb) (map unmark (filter used (afterReads this rs))) rs) =
     map unmark (filter used (afterReads this rs))"
proof -
  define c where "c = filter used (afterReads this rs)"
  define F where "F = foldl (markRead cb) (map unmark c) rs"
  have len: "length F = length c" unfolding F_def c_def by (rule swept_length)
  have p1: "map unmark (take (length (map unmark c)) F) = map unmark (map unmark c)"
    unfolding F_def by (rule foldl_markRead_prefix)
  have p2: "take (length (map unmark c)) F = F" using len by simp
  have "map unmark F = map unmark c"
    using p1 unfolding p2 map_unmark_unmark .
  then show ?thesis unfolding F_def c_def .
qed

lemma rebuild_same_reads:
  "foldl (markRead cb) (map unmark (filter used (afterReads this rs))) rs =
     filter used (afterReads this rs)"
proof (rule nth_equalityI)
  show "length (foldl (markRead cb) (map unmark (filter used (afterReads this rs))) rs) =
     length (filter used (afterReads this rs))"
    by (rule swept_length)
next
  fix i
  assume "i < length (foldl (markRead cb) (map unmark (filter used (afterReads this rs))) rs)"
  then have i: "i < length (filter used (afterReads this rs))"
    unfolding swept_length .
  have u1: "used (foldl (markRead cb) (map unmark (filter used (afterReads this rs))) rs ! i)"
    using i by (rule swept_remarked)
  have "filter used (afterReads this rs) ! i \<in> set (filter used (afterReads this rs))"
    using i by (rule nth_mem)
  then have u2: "used (filter used (afterReads this rs) ! i)" by simp
  have "map unmark (foldl (markRead cb) (map unmark (filter used (afterReads this rs))) rs) ! i =
     map unmark (filter used (afterReads this rs)) ! i"
    unfolding swept_unmarked_same ..
  then have "unmark (foldl (markRead cb) (map unmark (filter used (afterReads this rs))) rs ! i) =
     unmark (filter used (afterReads this rs) ! i)"
    using i by (simp add: swept_length)
  then show "foldl (markRead cb) (map unmark (filter used (afterReads this rs))) rs ! i =
     filter used (afterReads this rs) ! i"
    by (rule unmark_eq_used) (simp add: u1 u2)
qed

lemma build_Inr_instance:
  assumes "buildStateWithAutoSubscriptions amb this p initialBuild = (Inr state, this', calls)"
  shows "this' = this\<lparr>handledAutoSubscriptions :=
     filter used (afterReads this (reads (buildState amb p initialBuild)))\<rparr>"
  using build_completed [OF build_Inr_outcome [OF assms], of this] assms by auto

lemma afterReads_swept:
  "afterReads (this\<lparr>handledAutoSubscriptions := filter used (afterReads this rs)\<rparr>) rs =
     filter used (afterReads this rs)"
  unfolding afterReads_def [of "this\<lparr>handledAutoSubscriptions := _\<rparr>"]
  by (simp add: rebuild_same_reads)

lemma filter_unused_used: "filter (\<lambda>s. \<not> used s) (filter used L) = []"
  by (induction L) simp_all

lemma afterReads_prefix:
  "map unmark (take (length (handledAutoSubscriptions this)) (afterReads this rs)) =
     map unmark (handledAutoSubscriptions this)"
  using foldl_markRead_prefix [of "map unmark (handledAutoSubscriptions this)"
      "onAutoSubscriptionChanged this" rs]
  by (simp add: afterReads_def map_unmark_unmark)

lemma afterReads_length:
  "length (handledAutoSubscriptions this) \<le> length (afterReads this rs)"
  using length_foldl_markRead [of "map unmark (handledAutoSubscriptions this)"
      "onAutoSubscriptionChanged this" rs]
  by (simp add: afterReads_def)

lemma afterReads_covers:
  assumes "r \<in> set rs"
  shows "\<exists>s\<in>set (afterReads this rs). used s \<and> matchesRead (fst r) (snd r) s"
proof -
  from covered_foldl [OF assms, of "onAutoSubscriptionChanged this"
      "map unmark (handledAutoSubscriptions this)"]
  obtain i where i: "i < length (afterReads this rs)"
    and f: "utils_find (afterReads this rs) (matchesRead (fst r) (snd r)) = Some i"
    and u: "used (afterReads this rs ! i)"
    unfolding afterReads_def by blast
  from f have "matchesRead (fst r) (snd r) (afterReads this rs ! i)"
    by (simp add: utils_find_Some)
  moreover from i have "afterReads this rs ! i \<in> set (afterReads this rs)" by simp
  ultimately show ?thesis using u by blast
qed

lemma unmounted_notifications:
  "\<not> isMounted this \<Longrightarrow>
     lifecycle this (map (\<lambda>a. (a, OnAutoSubscriptionChanged)) ambs) = (None, this, [])"
  by (induction ambs)
     (simp_all add: onAutoSubscriptionChangedUnbound_def isComponentMounted_def)

lemma handleUpdate_equal:
  "shouldComponentUpdateComparator amb (props this) nextProps \<Longrightarrow>
     handleUpdate amb this nextProps =
       (Inr None, this, [ShouldComponentUpdateComparator (props this) nextProps])"
  by (simp add: handleUpdate_def)

lemma deliver_equal_policy:
  assumes "isMounted this" and "\<forall>a b. shouldComponentUpdateComparator amb a b"
    and "e \<noteq> ComponentWillUnmount" and "e \<noteq> OnAutoSubscriptionChanged"
  shows "\<exists>this' calls. deliver amb this e = (None, this', calls) \<and>
           handledAutoSubscriptions this' = handledAutoSubscriptions this \<and>
           isMounted this' \<and> list_all isComparison calls"
proof (cases e)
  case (GetDerivedStateFromProps nextProps)
  with assms show ?thesis
    by (simp add: getDerivedStateFromProps_def handleUpdate_equal)
next
  case ComponentDidMount
  with assms show ?thesis by (simp add: componentDidMount_def)
next
  case ComponentDidUpdate
  with assms show ?thesis by (simp add: componentDidUpdate_def)
next
  case ComponentWillUnmount
  with assms show ?thesis by simp
next
  case OnAutoSubscriptionChanged
  with assms show ?thesis by simp
qed

lemma lifecycle_equal_policy:
  assumes "isMounted this"
    and "\<forall>x\<in>set es. (\<forall>a b. shouldComponentUpdateComparator (fst x) a b) \<and>
           snd x \<noteq> ComponentWillUnmount \<and> snd x \<noteq> OnAutoSubscriptionChanged"
  shows "\<exists>this' calls. lifecycle this es = (None, this', calls) \<and>
           handledAutoSubscriptions this' = handledAutoSubscriptions this \<and>
           isMounted this' \<and> list_all isComparison calls"
  using assms
proof (induction es arbitrary: this)
  case Nil
  then show ?case by simp
next
  case (Cons x es)
  obtain amb e where x: "x = (amb, e)" by (cases x)
  from Cons.prems x have "\<forall>a b. shouldComponentUpdateComparator amb a b"
    and "e \<noteq> ComponentWillUnmount" and "e \<noteq> OnAutoSubscriptionChanged" by auto
  from deliver_equal_policy [OF Cons.prems(1) this] obtain this1 cs
    where d: "deliver amb this e = (None, this1, cs)"
      and h1: "handledAutoSubscriptions this1 = handledAutoSubscriptions this"
      and m1: "isMounted this1" and c1: "list_all isComparison cs" by blast
  from Cons.prems(2) have "\<forall>x\<in>set es. (\<forall>a b. shouldComponentUpdateComparator (fst x) a b) \<and>
           snd x \<noteq> ComponentWillUnmount \<and> snd x \<noteq> OnAutoSubscriptionChanged" by simp
  from Cons.IH [OF m1 this] obtain this2 ds
    where l: "lifecycle this1 es = (None, this2, ds)"
      and h2: "handledAutoSubscriptions this2 = handledAutoSubscriptions this1"
      and m2: "isMounted this2" and c2: "list_all isComparison ds" by blast
  from d l have "lifecycle this (x # es) = (None, this2, cs @ ds)"
    unfolding x by simp
  with h1 h2 m2 c1 c2 show ?case by simp
qed

lemma build_default:
  assumes "buildState amb = buildState_default" and "handledAutoSubscriptions this = []"
  shows "buildStateWithAutoSubscriptions amb this p initialBuild =
     (Inr None, this,
      (if instrumentationImpl amb then [BeginBuildState] else []) @
      [BuildState p initialBuild] @
      (if instrumentationImpl amb then [EndBuildState] else []))"
proof -
  have o: "outcome (buildState amb p initialBuild) = Inr None"
    and r: "reads (buildState amb p initialBuild) = []"
    using assms(1) by (simp_all add: buildState_default_def)
  have "this\<lparr>handledAutoSubscriptions := []\<rparr> = this" using assms(2) by simp
  then show ?thesis
    unfolding build_completed [OF o] r by (simp add: afterReads_def assms(2))
qed

lemma build_fst:
  "fst (buildStateWithAutoSubscriptions amb this p initialBuild) =
     outcome (buildState amb p initialBuild)"
proof (cases "outcome (buildState amb p initialBuild)")
  case (Inl e)
  then show ?thesis by (simp add: build_fault)
next
  case (Inr s)
  then show ?thesis by (simp add: build_completed)
qed

lemma build_no_SetState:
  "SetState d \<notin> set (snd (snd (buildStateWithAutoSubscriptions amb this p initialBuild)))"
proof (cases "outcome (buildState amb p initialBuild)")
  case (Inl e)
  then show ?thesis by (auto simp: build_fault)
next
  case (Inr s)
  then show ?thesis by (auto simp: build_completed)
qed

lemma buildInitialState_empty:
  assumes "outcome (buildState amb (props this) True) = Inr None \<or>
           outcome (buildState amb (props this) True) = Inr (Some [])"
  shows "fst (buildInitialState amb this) = Inr []"
proof -
  obtain r this1 cs
    where b: "buildStateWithAutoSubscriptions amb this (props this) True = (r, this1, cs)"
    by (cases "buildStateWithAutoSubscriptions amb this (props this) True")
  with build_fst [of amb this "props this" True] assms
  have "r = Inr None \<or> r = Inr (Some [])" by auto
  with b show ?thesis by (auto simp: buildInitialState_def)
qed

lemma handleUpdate_empty:
  assumes "outcome (buildState amb nextProps False) = Inr None \<or>
           outcome (buildState amb nextProps False) = Inr (Some [])"
  shows "fst (handleUpdate amb this nextProps) = Inr None"
proof -
  obtain r this1 cs
    where b: "buildStateWithAutoSubscriptions amb this nextProps False = (r, this1, cs)"
    by (cases "buildStateWithAutoSubscriptions amb this nextProps False")
  with build_fst [of amb this nextProps False] assms
  have "r = Inr None \<or> r = Inr (Some [])" by auto
  with b show ?thesis by (auto simp: handleUpdate_def)
qed

lemma onAutoSubscriptionChanged_empty:
  assumes "outcome (buildState amb (props that) False) = Inr None \<or>
           outcome (buildState amb (props that) False) = Inr (Some [])"
  shows "fst (onAutoSubscriptionChangedUnbound amb that) = Inr () \<and>
         SetState d \<notin> set (snd (snd (onAutoSubscriptionChangedUnbound amb that)))"
proof -
  obtain r that1 cs
    where b: "buildStateWithAutoSubscriptions amb that (props that) False = (r, that1, cs)"
    by (cases "buildStateWithAutoSubscriptions amb that (props that) False")
  with build_fst [of amb that "props that" False] assms
  have r: "r = Inr None \<or> r = Inr (Some [])" by auto
  from b build_no_SetState [of d amb that "props that" False]
  have "SetState d \<notin> set cs" by simp
  with b r show ?thesis by (auto simp: onAutoSubscriptionChangedUnbound_def)
qed

lemma build_fault_facts:
  assumes "outcome (buildState amb p initialBuild) = Inl e"
    and F_def: "F = afterReads this (reads (buildState amb p initialBuild))"
    and calls_def: "calls = (if instrumentationImpl amb then [BeginBuildState] else []) @
      [BuildState p initialBuild] @
      map TrackAutoSubscription (drop (length (handledAutoSubscriptions this)) F)"
  shows "buildStateWithAutoSubscriptions amb this p initialBuild =
           (Inl e, this\<lparr>handledAutoSubscriptions := F\<rparr>, calls)"
    and "RemoveAutoSubscription s \<notin> set calls"
    and "TrackAutoSubscription s \<in> set calls \<Longrightarrow> s \<in> set F"
proof -
  show "buildStateWithAutoSubscriptions amb this p initialBuild =
           (Inl e, this\<lparr>handledAutoSubscriptions := F\<rparr>, calls)"
    unfolding F_def calls_def using assms(1) by (rule build_fault)
  show "RemoveAutoSubscription s \<notin> set calls"
    unfolding calls_def by auto
  show "s \<in> set F" if "TrackAutoSubscription s \<in> set calls"
  proof -
    from that have "s \<in> set (drop (length (handledAutoSubscriptions this)) F)"
      unfolding calls_def by (auto split: if_splits)
    then show ?thesis by (rule in_set_dropD)
  qed
qed

lemma noKeyAll_unmark: "noKeyAll sid (map unmark L) = noKeyAll sid L"
  by (simp add: noKeyAll_def unmark_def)

lemma noKeyAll_markRead:
  assumes "noKeyAll sid L" and "\<not> (storeId (fst r) = sid \<and> snd r = Key_All)"
  shows "noKeyAll sid (markRead cb L r)"
proof (cases "utils_find L (matchesRead (fst r) (snd r))")
  case None
  from markRead_None(1) [OF None, of cb] assms show ?thesis
    by (auto simp: noKeyAll_def)
next
  case (Some j)
  have "s \<in> set (L[j := (L ! j)\<lparr>used := True\<rparr>]) \<Longrightarrow>
      \<not> (storeId (store s) = sid \<and> key s = Key_All)" for s
  proof -
    assume "s \<in> set (L[j := (L ! j)\<lparr>used := True\<rparr>])"
    then have "s = (L ! j)\<lparr>used := True\<rparr> \<or> s \<in> set L"
      using set_update_subset_insert [of L j "(L ! j)\<lparr>used := True\<rparr>"] by auto
    moreover have "L ! j \<in> set L" using markRead_Some(3) [OF Some] by simp
    ultimately show ?thesis using assms(1) by (auto simp: noKeyAll_def)
  qed
  with markRead_Some(1) [OF Some, of cb] show ?thesis by (simp add: noKeyAll_def)
qed

lemma noKeyAll_foldl:
  "noKeyAll sid L \<Longrightarrow> \<forall>r\<in>set rs. \<not> (storeId (fst r) = sid \<and> snd r = Key_All) \<Longrightarrow>
     noKeyAll sid (foldl (markRead cb) L rs)"
proof (induction rs arbitrary: L)
  case Nil
  then show ?case by simp
next
  case (Cons r rs)
  from Cons.prems have "noKeyAll sid (markRead cb L r)"
    by (intro noKeyAll_markRead) simp_all
  moreover from Cons.prems
  have "\<forall>r\<in>set rs. \<not> (storeId (fst r) = sid \<and> snd r = Key_All)" by simp
  ultimately have "noKeyAll sid (foldl (markRead cb) (markRead cb L r) rs)"
    by (rule Cons.IH)
  then show ?case by simp
qed

lemma noKeyAll_find_None:
  assumes "noKeyAll (storeId st) L"
  shows "utils_find L (matchesRead st Key_All) = None"
  unfolding utils_find_None using assms by (auto simp: noKeyAll_def matchesRead_def)

lemma foldl_markRead_keeps_used:
  assumes "i < length L" and "used (L ! i)"
  shows "i < length (foldl (markRead cb) L rs) \<and> foldl (markRead cb) L rs ! i = L ! i"
  using assms foldl_markRead_nth_used [OF assms, of cb rs] length_foldl_markRead [of L cb rs]
  by simp

lemma specific_then_all:
  fixes L0 :: "AutoSubscription list"
  assumes n0: "noKeyAll (storeId st) L0"
    and n12: "\<forall>r\<in>set (rs1 @ rs2). \<not> (storeId (fst r) = storeId st \<and> snd r = Key_All)"
    and sid: "storeId st' = storeId st" and k: "k \<noteq> Key_All"
    and F_def: "F = foldl (markRead cb) L0 (rs1 @ (st, k) # rs2 @ (st', Key_All) # rs3)"
  shows "\<exists>s\<in>set (filter used F). subscriptionPair s = (storeId st, k)"
    and "\<lparr>store = st', key = Key_All, callback = cb, used = True\<rparr> \<in> set (filter used F)"
    and "\<lparr>store = st', key = Key_All, callback = cb, used = True\<rparr> \<in> set (drop (length L0) F)"
proof -
  define L1 where "L1 = foldl (markRead cb) L0 rs1"
  define L1' where "L1' = markRead cb L1 (st, k)"
  define L2 where "L2 = foldl (markRead cb) L1' rs2"
  define L2' where "L2' = markRead cb L2 (st', Key_All)"
  have F1: "F = foldl (markRead cb) L1' (rs2 @ (st', Key_All) # rs3)"
    unfolding F_def L1'_def L1_def by simp
  have F2: "F = foldl (markRead cb) L2' rs3"
    unfolding F_def L2'_def L2_def L1'_def L1_def by simp
  have n1: "noKeyAll (storeId st) L1"
    unfolding L1_def using n0 n12 by (intro noKeyAll_foldl) simp_all
  have n1': "noKeyAll (storeId st) L1'"
    unfolding L1'_def using n1 k by (intro noKeyAll_markRead) simp_all
  have n2: "noKeyAll (storeId st) L2"
    unfolding L2_def using n1' n12 by (intro noKeyAll_foldl) simp_all
  from markRead_marks [of cb L1 "(st, k)"] obtain i where i: "i < length L1'"
    and f: "utils_find L1' (matchesRead st k) = Some i" and u: "used (L1' ! i)"
    unfolding L1'_def by auto
  from f have m: "matchesRead st k (L1' ! i)" by (simp add: utils_find_Some)
  from i have "L1' ! i \<in> set L1'" by simp
  with n1' m have p: "subscriptionPair (L1' ! i) = (storeId st, k)"
    by (auto simp: noKeyAll_def matchesRead_def subscriptionPair_def)
  from foldl_markRead_keeps_used [OF i u, of cb "rs2 @ (st', Key_All) # rs3"]
  have iF: "i < length F" and eiF: "F ! i = L1' ! i" unfolding F1 by simp_all
  from iF have "F ! i \<in> set F" by simp
  with u eiF have "L1' ! i \<in> set (filter used F)" by simp
  with p show "\<exists>s\<in>set (filter used F). subscriptionPair s = (storeId st, k)" by blast
  have "utils_find L2 (matchesRead st' Key_All) = None"
    using n2 sid by (intro noKeyAll_find_None) simp
  from markRead_None(1) [of L2 "(st', Key_All)" cb] this
  have e: "L2' = L2 @ [\<lparr>store = st', key = Key_All, callback = cb, used = True\<rparr>]"
    unfolding L2'_def by simp
  then have j: "length L2 < length L2'" and uj: "used (L2' ! length L2)"
    and nj: "L2' ! length L2 = \<lparr>store = st', key = Key_All, callback = cb, used = True\<rparr>"
    by simp_all
  from foldl_markRead_keeps_used [OF j uj, of cb rs3] nj
  have lF: "length L2 < length F"
    and eF: "F ! length L2 = \<lparr>store = st', key = Key_All, callback = cb, used = True\<rparr>"
    unfolding F2 by simp_all
  from lF have "F ! length L2 \<in> set F" by simp
  with eF show "\<lparr>store = st', key = Key_All, callback = cb, used = True\<rparr> \<in> set (filter used F)"
    by simp
  have "length L0 \<le> length L1" unfolding L1_def by (rule length_foldl_markRead)
  also have "\<dots> \<le> length L1'" unfolding L1'_def by (rule length_markRead)
  also have "\<dots> \<le> length L2" unfolding L2_def by (rule length_foldl_markRead)
  finally have "length L0 \<le> length L2" .
  then have "drop (length L0) F ! (length L2 - length L0) = F ! length L2"
    using lF by simp
  moreover have "length L2 - length L0 < length (drop (length L0) F)"
    using lF \<open>length L0 \<le> length L2\<close> by simp
  ultimately have "F ! length L2 \<in> set (drop (length L0) F)"
    using nth_mem [of "length L2 - length L0" "drop (length L0) F"] by simp
  with eF show "\<lparr>store = st', key = Key_All, callback = cb, used = True\<rparr> \<in>
      set (drop (length L0) F)" by simp
qed

lemma build_Inr_tracked:
  assumes "buildStateWithAutoSubscriptions amb this p initialBuild = (Inr state, this', calls)"
  shows "(TrackAutoSubscription s \<in> set calls) =
     (s \<in> set (drop (length (handledAutoSubscriptions this))
        (afterReads this (reads (buildState amb p initialBuild)))))"
proof -
  from build_completed [OF build_Inr_outcome [OF assms], of this] assms
  have "calls = (if instrumentationImpl amb then [BeginBuildState] else []) @
      [BuildState p initialBuild] @
      map TrackAutoSubscription
        (drop (length (handledAutoSubscriptions this))
           (afterReads this (reads (buildState amb p initialBuild)))) @
      (if instrumentationImpl amb then [EndBuildState] else []) @
      map RemoveAutoSubscription
        (filter (\<lambda>s. \<not> used s) (afterReads this (reads (buildState amb p initialBuild))))"
    by simp
  then show ?thesis by auto
qed

lemma hasKeyAll_find:
  assumes "hasKeyAll (storeId st) L"
  shows "\<exists>i. utils_find L (matchesRead st k) = Some i"
proof -
  from assms obtain s where "s \<in> set L" and "matchesRead st k s"
    by (auto simp: hasKeyAll_def matchesRead_def)
  then have "utils_find L (matchesRead st k) \<noteq> None"
    unfolding utils_find_None by blast
  then show ?thesis by (cases "utils_find L (matchesRead st k)") simp_all
qed

lemma set_unmark_update:
  "j < length L \<Longrightarrow> unmark ` set (L[j := (L ! j)\<lparr>used := b\<rparr>]) = unmark ` set L"
proof -
  assume j: "j < length L"
  have "map unmark (L[j := (L ! j)\<lparr>used := b\<rparr>]) = map unmark L"
  proof (rule nth_equalityI)
    show "length (map unmark (L[j := (L ! j)\<lparr>used := b\<rparr>])) = length (map unmark L)" by simp
  next
    fix i
    assume "i < length (map unmark (L[j := (L ! j)\<lparr>used := b\<rparr>]))"
    then have "i < length L" by simp
    then show "map unmark (L[j := (L ! j)\<lparr>used := b\<rparr>]) ! i = map unmark L ! i"
      by (cases "i = j") simp_all
  qed
  then have "set (map unmark (L[j := (L ! j)\<lparr>used := b\<rparr>])) = set (map unmark L)" by simp
  then show ?thesis by simp
qed

lemma hasKeyAll_unmark_image:
  "hasKeyAll sid L = (\<exists>s\<in>unmark ` set L. storeId (store s) = sid \<and> key s = Key_All)"
  by (simp add: hasKeyAll_def unmark_def)

lemma hasKeyAll_markRead:
  assumes "hasKeyAll sid L"
  shows "hasKeyAll sid (markRead cb L r)"
proof (cases "utils_find L (matchesRead (fst r) (snd r))")
  case None
  from markRead_None(1) [OF None, of cb] assms show ?thesis
    by (auto simp: hasKeyAll_def)
next
  case (Some j)
  from markRead_Some(1) [OF Some, of cb] markRead_Some(3) [OF Some] assms show ?thesis
    unfolding hasKeyAll_unmark_image by (simp add: set_unmark_update)
qed

lemma tracked_not_absorbed:
  "hasKeyAll sid L \<Longrightarrow> t \<in> set (drop (length L) (foldl (markRead cb) L rs)) \<Longrightarrow>
     storeId (store t) \<noteq> sid"
proof (induction rs arbitrary: L)
  case Nil
  then show ?case by simp
next
  case (Cons r rs)
  from Cons.prems(2) have "t \<in> set (drop (length L) (markRead cb L r)) \<or>
      t \<in> set (drop (length (markRead cb L r)) (foldl (markRead cb) (markRead cb L r) rs))"
    by (simp add: drop_markRead_foldl)
  then show ?case
  proof
    assume t: "t \<in> set (drop (length L) (markRead cb L r))"
    show ?thesis
    proof (cases "utils_find L (matchesRead (fst r) (snd r))")
      case None
      from markRead_None(1) [OF None, of cb] t
      have "store t = fst r" by simp
      moreover have "storeId (fst r) \<noteq> sid"
      proof
        assume "storeId (fst r) = sid"
        with Cons.prems(1) hasKeyAll_find [of "fst r" L "snd r"] None show False by simp
      qed
      ultimately show ?thesis by simp
    next
      case (Some j)
      from markRead_Some(1) [OF Some, of cb] t show ?thesis by simp
    qed
  next
    assume "t \<in> set (drop (length (markRead cb L r))
      (foldl (markRead cb) (markRead cb L r) rs))"
    with hasKeyAll_markRead [OF Cons.prems(1), of cb r] show ?thesis
      by (rule Cons.IH)
  qed
qed

lemma enableAutoSubscribe_unmark:
  "map unmark (take (length (handledAutoSubscriptions this))
      (handledAutoSubscriptions (fst (enableAutoSubscribe this rs)))) =
   map unmark (handledAutoSubscriptions this)"
  by (simp add: enableAutoSubscribe_foldl foldl_markRead_prefix)

lemma storeIndex_append:
  "storeIndex idx (cs @ ds) = storeIndex (storeIndex idx cs) ds"
proof (induction cs arbitrary: idx)
  case Nil
  then show ?case by simp
next
  case (Cons c cs)
  then show ?case by (cases c) simp_all
qed

lemma storeIndex_tracks:
  "storeIndex idx (map TrackAutoSubscription N) = idx @ map subscriptionHandle N"
  by (induction N arbitrary: idx) simp_all

lemma storeIndex_removes:
  "mset (storeIndex idx (map RemoveAutoSubscription R)) =
     mset idx - mset (map subscriptionHandle R)"
proof (induction R arbitrary: idx)
  case Nil
  then show ?case by simp
next
  case (Cons s R)
  show ?case
    unfolding list.map storeIndex.simps Cons.IH mset_remove1
    by (simp add: diff_diff_add)
qed

lemma storeIndex_hooks:
  "storeIndex idx (if b then [BeginBuildState] else []) = idx"
  "storeIndex idx (if b then [EndBuildState] else []) = idx"
  by simp_all

lemma storeIndex_build:
  assumes "buildStateWithAutoSubscriptions amb this p initialBuild = (Inr state, this', calls)"
  shows "mset (storeIndex idx calls) =
     mset idx +
     mset (map subscriptionHandle (drop (length (handledAutoSubscriptions this))
        (afterReads this (reads (buildState amb p initialBuild))))) -
     mset (map subscriptionHandle (filter (\<lambda>s. \<not> used s)
        (afterReads this (reads (buildState amb p initialBuild)))))"
proof -
  from build_completed [OF build_Inr_outcome [OF assms], of this] assms
  have "calls = (if instrumentationImpl amb then [BeginBuildState] else []) @
      [BuildState p initialBuild] @
      map TrackAutoSubscription
        (drop (length (handledAutoSubscriptions this))
           (afterReads this (reads (buildState amb p initialBuild)))) @
      (if instrumentationImpl amb then [EndBuildState] else []) @
      map RemoveAutoSubscription
        (filter (\<lambda>s. \<not> used s) (afterReads this (reads (buildState amb p initialBuild))))"
    by simp
  then show ?thesis
    by (simp add: storeIndex_append storeIndex_hooks storeIndex_tracks storeIndex_removes)
qed

lemma subscriptionHandle_unmark [simp]: "subscriptionHandle (unmark s) = subscriptionHandle s"
  by (simp add: subscriptionHandle_def unmark_def)

lemma map_handle_unmark: "map subscriptionHandle (map unmark L) = map subscriptionHandle L"
  by (rule nth_equalityI) simp_all

lemma handles_partition:
  "mset (map subscriptionHandle F) =
     mset (map subscriptionHandle (filter used F)) +
     mset (map subscriptionHandle (filter (\<lambda>s. \<not> used s) F))"
  by (induction F) simp_all

lemma handles_afterReads:
  "map subscriptionHandle (afterReads this rs) =
     map subscriptionHandle (handledAutoSubscriptions this) @
     map subscriptionHandle (drop (length (handledAutoSubscriptions this)) (afterReads this rs))"
proof -
  define n where "n = length (handledAutoSubscriptions this)"
  define F where "F = afterReads this rs"
  have "map subscriptionHandle (map unmark (take n F)) =
      map subscriptionHandle (map unmark (handledAutoSubscriptions this))"
    unfolding n_def F_def afterReads_prefix ..
  then have "map subscriptionHandle (take n F) =
      map subscriptionHandle (handledAutoSubscriptions this)"
    unfolding map_handle_unmark .
  moreover have "map subscriptionHandle F =
      map subscriptionHandle (take n F) @ map subscriptionHandle (drop n F)"
    unfolding map_append [symmetric] append_take_drop_id ..
  ultimately show ?thesis unfolding n_def F_def by simp
qed

lemma new_callback:
  "t \<in> set (drop (length L) (foldl (markRead cb) L rs)) \<Longrightarrow> callback t = cb"
proof (induction rs arbitrary: L)
  case Nil
  then show ?case by simp
next
  case (Cons r rs)
  from Cons.prems have "t \<in> set (drop (length L) (markRead cb L r)) \<or>
      t \<in> set (drop (length (markRead cb L r)) (foldl (markRead cb) (markRead cb L r) rs))"
    by (simp add: drop_markRead_foldl)
  then show ?case
  proof
    assume t: "t \<in> set (drop (length L) (markRead cb L r))"
    show ?thesis
    proof (cases "utils_find L (matchesRead (fst r) (snd r))")
      case None
      from markRead_None(1) [OF None, of cb] t show ?thesis by simp
    next
      case (Some j)
      from markRead_Some(1) [OF Some, of cb] t show ?thesis by simp
    qed
  next
    assume "t \<in> set (drop (length (markRead cb L r))
      (foldl (markRead cb) (markRead cb L r) rs))"
    then show ?thesis by (rule Cons.IH)
  qed
qed

lemma new_callback_afterReads:
  "t \<in> set (drop (length (handledAutoSubscriptions this)) (afterReads this rs)) \<Longrightarrow>
     callback t = onAutoSubscriptionChanged this"
  using new_callback [of t "map unmark (handledAutoSubscriptions this)"
      "onAutoSubscriptionChanged this" rs]
  by (simp add: afterReads_def)

lemma filter_mset_all: "(\<And>x. x \<in># M \<Longrightarrow> P x) \<Longrightarrow> filter_mset P M = M"
  by (induction M) simp_all

lemma inSync_build:
  assumes b: "buildStateWithAutoSubscriptions amb this p initialBuild = (Inr state, this', calls)"
    and s: "inSync this idx"
  shows "inSync this' (storeIndex idx calls)"
proof -
  define cb where "cb = onAutoSubscriptionChanged this"
  define P where "P = (\<lambda>h :: StoreBase \<times> string \<times> nat. snd (snd h) = cb)"
  define F where "F = afterReads this (reads (buildState amb p initialBuild))"
  define L where "L = handledAutoSubscriptions this"
  define N where "N = mset (map subscriptionHandle (drop (length L) F))"
  define R where "R = mset (map subscriptionHandle (filter (\<lambda>s. \<not> used s) F))"
  define K where "K = mset (map subscriptionHandle (filter used F))"
  have t': "this' = this\<lparr>handledAutoSubscriptions := filter used F\<rparr>"
    unfolding F_def using b by (rule build_Inr_instance)
  have s0: "filter_mset P (mset idx) = mset (map subscriptionHandle L)"
    using s unfolding inSync_def ownerIndex_def P_def cb_def L_def by simp
  have PL: "P h" if "h \<in># mset (map subscriptionHandle L)" for h
  proof -
    from that have "h \<in># filter_mset P (mset idx)" unfolding s0 .
    then show ?thesis by simp
  qed
  have PN: "P h" if "h \<in># N" for h
  proof -
    from that obtain t where "t \<in> set (drop (length L) F)" and "h = subscriptionHandle t"
      unfolding N_def by auto
    with new_callback_afterReads [of t this "reads (buildState amb p initialBuild)"]
    show ?thesis unfolding P_def cb_def F_def L_def subscriptionHandle_def by simp
  qed
  have FLN: "mset (map subscriptionHandle F) = mset (map subscriptionHandle L) + N"
    unfolding F_def L_def N_def
    using handles_afterReads [of this "reads (buildState amb p initialBuild)"]
    by (metis mset_append)
  have FKR: "mset (map subscriptionHandle F) = K + R"
    unfolding K_def R_def by (rule handles_partition)
  have PR: "P h" if "h \<in># R" for h
  proof -
    from that have "h \<in># mset (map subscriptionHandle L) + N"
      unfolding FLN [symmetric] FKR by simp
    then have "h \<in># mset (map subscriptionHandle L) \<or> h \<in># N"
      by (simp only: union_iff)
    then show ?thesis
    proof
      assume "h \<in># mset (map subscriptionHandle L)"
      then show ?thesis by (rule PL)
    next
      assume "h \<in># N"
      then show ?thesis by (rule PN)
    qed
  qed
  have fN: "filter_mset P N = N" by (rule filter_mset_all) (rule PN)
  have fR: "filter_mset P R = R" by (rule filter_mset_all) (rule PR)
  have "mset (storeIndex idx calls) = mset idx + N - R"
    unfolding N_def R_def F_def L_def using b by (rule storeIndex_build)
  then have "filter_mset P (mset (storeIndex idx calls)) =
      filter_mset P (mset idx) + filter_mset P N - filter_mset P R"
    by (simp only: filter_diff_mset filter_union_mset)
  also have "\<dots> = mset (map subscriptionHandle L) + N - R"
    unfolding s0 fN fR ..
  also have "\<dots> = K + R - R" unfolding FLN [symmetric] FKR ..
  also have "\<dots> = K" by simp
  finally have "mset (filter P (storeIndex idx calls)) = K" by simp
  then show ?thesis
    unfolding inSync_def ownerIndex_def t' K_def P_def cb_def by simp
qed

lemma unmark_unused: "\<not> used a \<Longrightarrow> unmark a = a"
  by (cases a) (simp add: unmark_def)

lemma build_Inr_removed:
  assumes "buildStateWithAutoSubscriptions amb this p initialBuild = (Inr state, this', calls)"
    and "s \<in> set (afterReads this (reads (buildState amb p initialBuild)))" and "\<not> used s"
  shows "RemoveAutoSubscription s \<in> set calls"
proof -
  from build_completed [OF build_Inr_outcome [OF assms(1)], of this] assms(1)
  have "calls = (if instrumentationImpl amb then [BeginBuildState] else []) @
      [BuildState p initialBuild] @
      map TrackAutoSubscription
        (drop (length (handledAutoSubscriptions this))
           (afterReads this (reads (buildState amb p initialBuild)))) @
      (if instrumentationImpl amb then [EndBuildState] else []) @
      map RemoveAutoSubscription
        (filter (\<lambda>s. \<not> used s) (afterReads this (reads (buildState amb p initialBuild))))"
    by simp
  with assms(2,3) show ?thesis by auto
qed

lemma unanswered_unmarked:
  assumes i: "i < length (handledAutoSubscriptions this)"
    and nr: "\<forall>r\<in>set rs. \<not> matchesRead (fst r) (snd r) (handledAutoSubscriptions this ! i)"
  shows "i < length (afterReads this rs) \<and>
         afterReads this rs ! i = unmark (handledAutoSubscriptions this ! i)"
proof -
  define L where "L = handledAutoSubscriptions this"
  define F where "F = afterReads this rs"
  have iF: "i < length F"
    using i afterReads_length [of this rs] unfolding F_def by simp
  have "map unmark (take (length L) F) ! i = map unmark L ! i"
    unfolding L_def F_def afterReads_prefix ..
  with i iF have e: "unmark (F ! i) = unmark (L ! i)" unfolding L_def by simp
  have "\<not> used (F ! i)"
  proof
    assume "used (F ! i)"
    with firstFor_afterReads [of rs this] iF obtain r where r: "r \<in> set rs"
      and f: "utils_find F (matchesRead (fst r) (snd r)) = Some i"
      unfolding firstFor_def F_def by blast
    from f have "matchesRead (fst r) (snd r) (F ! i)" by (simp add: utils_find_Some)
    then have "matchesRead (fst r) (snd r) (unmark (F ! i))" by simp
    then have "matchesRead (fst r) (snd r) (L ! i)" unfolding e by simp
    with nr r show False unfolding L_def by blast
  qed
  then have "unmark (F ! i) = F ! i" by (rule unmark_unused)
  with e iF show ?thesis unfolding F_def L_def by simp
qed











lemma matchesRead_new:
  "matchesRead (fst r) (snd r) \<lparr>store = fst q, key = snd q, callback = cb, used = u\<rparr> =
     answersAsNew r q"
  by (simp add: matchesRead_def answersAsNew_def)

lemma answersAsNew_refl: "answersAsNew q q"
  by (simp add: answersAsNew_def)

lemma answersAsNew_matches:
  assumes "answersAsNew r q" and "matchesRead (fst q) (snd q) s"
  shows "matchesRead (fst r) (snd r) s"
  using assms by (auto simp: answersAsNew_def matchesRead_def)

lemma answered_not_None:
  assumes "utils_find L (matchesRead (fst q) (snd q)) = Some j" and "answersAsNew r q"
  shows "utils_find L (matchesRead (fst r) (snd r)) \<noteq> None"
proof -
  from assms(1) have j: "j < length L" and m: "matchesRead (fst q) (snd q) (L ! j)"
    by (simp_all add: utils_find_Some)
  from answersAsNew_matches [OF assms(2) m] have "matchesRead (fst r) (snd r) (L ! j)" .
  moreover from j have "L ! j \<in> set L" by simp
  ultimately show ?thesis unfolding utils_find_None by blast
qed

lemma absorbedInBuild_Cons:
  "absorbedInBuild (q # rs) r =
     (if answersAsNew r q then snd q \<noteq> snd r else absorbedInBuild rs r)"
  by (simp add: absorbedInBuild_def)

lemma new_used:
  "t \<in> set (drop (length L) (foldl (markRead cb) L rs)) \<Longrightarrow> used t"
proof (induction rs arbitrary: L)
  case Nil
  then show ?case by simp
next
  case (Cons r rs)
  from Cons.prems have "t \<in> set (drop (length L) (markRead cb L r)) \<or>
      t \<in> set (drop (length (markRead cb L r)) (foldl (markRead cb) (markRead cb L r) rs))"
    by (simp add: drop_markRead_foldl)
  then show ?case
  proof
    assume t: "t \<in> set (drop (length L) (markRead cb L r))"
    show ?thesis
    proof (cases "utils_find L (matchesRead (fst r) (snd r))")
      case None
      from markRead_None(1) [OF None, of cb] t show ?thesis by simp
    next
      case (Some j)
      from markRead_Some(1) [OF Some, of cb] t show ?thesis by simp
    qed
  next
    assume "t \<in> set (drop (length (markRead cb L r))
      (foldl (markRead cb) (markRead cb L r) rs))"
    then show ?thesis by (rule Cons.IH)
  qed
qed

lemma utils_find_markRead_None:
  assumes "utils_find L (matchesRead (fst q) (snd q)) = None"
  shows "(utils_find (markRead cb L q) (matchesRead (fst r) (snd r)) = None) =
     (utils_find L (matchesRead (fst r) (snd r)) = None \<and> \<not> answersAsNew r q)"
  unfolding markRead_None(1) [OF assms] utils_find_None
  by (auto simp: matchesRead_new)

lemma utils_find_markRead_Some:
  assumes "utils_find L (matchesRead (fst q) (snd q)) = Some j"
  shows "utils_find (markRead cb L q) (matchesRead st k) = utils_find L (matchesRead st k)"
proof -
  have "map (matchesRead st k) (L[j := (L ! j)\<lparr>used := True\<rparr>]) = map (matchesRead st k) L"
  proof (rule nth_equalityI)
    show "length (map (matchesRead st k) (L[j := (L ! j)\<lparr>used := True\<rparr>])) =
        length (map (matchesRead st k) L)" by simp
  next
    fix i
    assume "i < length (map (matchesRead st k) (L[j := (L ! j)\<lparr>used := True\<rparr>]))"
    then have "i < length L" by simp
    then show "map (matchesRead st k) (L[j := (L ! j)\<lparr>used := True\<rparr>]) ! i =
        map (matchesRead st k) L ! i"
      by (cases "i = j") simp_all
  qed
  then have "utils_find (L[j := (L ! j)\<lparr>used := True\<rparr>]) (matchesRead st k) =
      utils_find L (matchesRead st k)" by (rule utils_find_cong)
  then show ?thesis unfolding markRead_Some(1) [OF assms] .
qed

lemma creating_Some:
  assumes "utils_find L (matchesRead (fst q) (snd q)) = Some j"
  shows "creating (markRead cb L q) rs = creating L (q # rs)"
proof (intro equalityI subsetI)
  fix r
  assume "r \<in> creating (markRead cb L q) rs"
  then have r: "r \<in> set rs" and n: "utils_find L (matchesRead (fst r) (snd r)) = None"
    and a: "\<not> absorbedInBuild rs r"
    unfolding creating_def utils_find_markRead_Some [OF assms] by simp_all
  from answered_not_None [OF assms] n have "\<not> answersAsNew r q" by blast
  with a have "\<not> absorbedInBuild (q # rs) r" by (simp add: absorbedInBuild_Cons)
  with r n show "r \<in> creating L (q # rs)" unfolding creating_def by simp
next
  fix r
  assume "r \<in> creating L (q # rs)"
  then have r: "r \<in> set (q # rs)" and n: "utils_find L (matchesRead (fst r) (snd r)) = None"
    and a: "\<not> absorbedInBuild (q # rs) r"
    unfolding creating_def by simp_all
  from answered_not_None [OF assms] n have na: "\<not> answersAsNew r q" by blast
  with answersAsNew_refl [of q] have "r \<noteq> q" by auto
  with r have "r \<in> set rs" by simp
  moreover from a na have "\<not> absorbedInBuild rs r" by (simp add: absorbedInBuild_Cons)
  ultimately show "r \<in> creating (markRead cb L q) rs"
    unfolding creating_def utils_find_markRead_Some [OF assms] using n by simp
qed

lemma creating_None:
  assumes "utils_find L (matchesRead (fst q) (snd q)) = None"
  shows "readPair ` creating L (q # rs) =
     insert (readPair q) (readPair ` creating (markRead cb L q) rs)"
proof (intro equalityI subsetI)
  fix x
  assume "x \<in> readPair ` creating L (q # rs)"
  then obtain r where x: "x = readPair r" and r: "r \<in> set (q # rs)"
    and n: "utils_find L (matchesRead (fst r) (snd r)) = None"
    and a: "\<not> absorbedInBuild (q # rs) r"
    unfolding creating_def by auto
  show "x \<in> insert (readPair q) (readPair ` creating (markRead cb L q) rs)"
  proof (cases "answersAsNew r q")
    case True
    with a have "snd q = snd r" by (simp add: absorbedInBuild_Cons)
    with True have "readPair r = readPair q" by (simp add: readPair_def answersAsNew_def)
    with x show ?thesis by simp
  next
    case False
    with answersAsNew_refl [of q] have "r \<noteq> q" by auto
    with r have "r \<in> set rs" by simp
    moreover from a False have "\<not> absorbedInBuild rs r" by (simp add: absorbedInBuild_Cons)
    moreover from n False
    have "utils_find (markRead cb L q) (matchesRead (fst r) (snd r)) = None"
      unfolding utils_find_markRead_None [OF assms] by simp
    ultimately have "r \<in> creating (markRead cb L q) rs" unfolding creating_def by simp
    with x show ?thesis by blast
  qed
next
  fix x
  assume "x \<in> insert (readPair q) (readPair ` creating (markRead cb L q) rs)"
  then show "x \<in> readPair ` creating L (q # rs)"
  proof
    assume "x = readPair q"
    moreover have "q \<in> creating L (q # rs)"
      unfolding creating_def using assms
      by (simp add: absorbedInBuild_Cons answersAsNew_refl)
    ultimately show ?thesis by blast
  next
    assume "x \<in> readPair ` creating (markRead cb L q) rs"
    then obtain r where x: "x = readPair r" and r: "r \<in> set rs"
      and n: "utils_find (markRead cb L q) (matchesRead (fst r) (snd r)) = None"
      and a: "\<not> absorbedInBuild rs r"
      unfolding creating_def by auto
    from n have n0: "utils_find L (matchesRead (fst r) (snd r)) = None"
      and na: "\<not> answersAsNew r q"
      unfolding utils_find_markRead_None [OF assms] by simp_all
    from a na have "\<not> absorbedInBuild (q # rs) r" by (simp add: absorbedInBuild_Cons)
    with r n0 have "r \<in> creating L (q # rs)" unfolding creating_def by simp
    with x show ?thesis by blast
  qed
qed

lemma created_pairs:
  "set (map subscriptionPair (drop (length L) (foldl (markRead cb) L rs))) =
     readPair ` creating L rs"
proof (induction rs arbitrary: L)
  case Nil
  then show ?case by (simp add: creating_def)
next
  case (Cons q rs)
  have split: "drop (length L) (foldl (markRead cb) L (q # rs)) =
      drop (length L) (markRead cb L q) @
      drop (length (markRead cb L q)) (foldl (markRead cb) (markRead cb L q) rs)"
    by (simp add: drop_markRead_foldl)
  have ih: "set (map subscriptionPair
        (drop (length (markRead cb L q)) (foldl (markRead cb) (markRead cb L q) rs))) =
      readPair ` creating (markRead cb L q) rs"
    by (rule Cons.IH)
  show ?case
  proof (cases "utils_find L (matchesRead (fst q) (snd q))")
    case None
    have "drop (length L) (markRead cb L q) =
        [\<lparr>store = fst q, key = snd q, callback = cb, used = True\<rparr>]"
      unfolding markRead_None(1) [OF None] by simp
    then have "set (map subscriptionPair (drop (length L) (markRead cb L q))) = {readPair q}"
      by (simp add: subscriptionPair_def readPair_def)
    with ih show ?thesis
      unfolding split creating_None [OF None, of rs cb] by simp
  next
    case (Some j)
    have "drop (length L) (markRead cb L q) = []"
      unfolding markRead_Some(1) [OF Some] by simp
    with ih show ?thesis
      unfolding split creating_Some [OF Some, of cb rs, symmetric] by simp
  qed
qed

lemma afterReads_nth_unmark:
  assumes "i < length (handledAutoSubscriptions this)"
  shows "unmark (afterReads this rs ! i) = unmark (handledAutoSubscriptions this ! i)"
proof -
  have "map unmark (take (length (handledAutoSubscriptions this)) (afterReads this rs)) ! i =
      map unmark (handledAutoSubscriptions this) ! i"
    unfolding afterReads_prefix ..
  with assms afterReads_length [of this rs] show ?thesis by simp
qed

lemma matchesRead_eq_unmark:
  "unmark a = unmark b \<Longrightarrow> matchesRead st k a = matchesRead st k b"
  by (metis matchesRead_unmark)

lemma subscriptionPair_unmark [simp]: "subscriptionPair (unmark s) = subscriptionPair s"
  by (simp add: subscriptionPair_def unmark_def)

lemma subscriptionPair_eq_unmark:
  "unmark a = unmark b \<Longrightarrow> subscriptionPair a = subscriptionPair b"
  by (metis subscriptionPair_unmark)

lemma old_marked:
  assumes i: "i < length (handledAutoSubscriptions this)"
  shows "used (afterReads this rs ! i) =
     (\<exists>r\<in>set rs. findMatchingAutoSubscription this (fst r) (snd r) = Some i)"
proof
  assume u: "used (afterReads this rs ! i)"
  from i afterReads_length [of this rs] have iF: "i < length (afterReads this rs)" by simp
  with firstFor_afterReads [of rs this] u obtain r where r: "r \<in> set rs"
    and f: "utils_find (afterReads this rs) (matchesRead (fst r) (snd r)) = Some i"
    unfolding firstFor_def by blast
  have same: "matchesRead (fst r) (snd r) (afterReads this rs ! j) =
      matchesRead (fst r) (snd r) (handledAutoSubscriptions this ! j)" if "j \<le> i" for j
  proof -
    from that i have "j < length (handledAutoSubscriptions this)" by simp
    from afterReads_nth_unmark [OF this] show ?thesis by (rule matchesRead_eq_unmark)
  qed
  from f have "matchesRead (fst r) (snd r) (afterReads this rs ! i)"
    and "\<forall>j<i. \<not> matchesRead (fst r) (snd r) (afterReads this rs ! j)"
    by (simp_all add: utils_find_Some)
  with same have "matchesRead (fst r) (snd r) (handledAutoSubscriptions this ! i)"
    and "\<forall>j<i. \<not> matchesRead (fst r) (snd r) (handledAutoSubscriptions this ! j)"
    by simp_all
  with i have "utils_find (handledAutoSubscriptions this) (matchesRead (fst r) (snd r)) = Some i"
    by (simp add: utils_find_Some)
  then have "findMatchingAutoSubscription this (fst r) (snd r) = Some i"
    by (simp add: findMatching_matchesRead)
  with r show "\<exists>r\<in>set rs. findMatchingAutoSubscription this (fst r) (snd r) = Some i" by blast
next
  assume "\<exists>r\<in>set rs. findMatchingAutoSubscription this (fst r) (snd r) = Some i"
  then obtain r where r: "r \<in> set rs"
    and f: "utils_find (handledAutoSubscriptions this) (matchesRead (fst r) (snd r)) = Some i"
    by (auto simp: findMatching_matchesRead)
  from f have "utils_find (map unmark (handledAutoSubscriptions this))
      (matchesRead (fst r) (snd r)) = Some i"
    unfolding utils_find_unmark .
  from foldl_markRead_marked [OF r this, of "onAutoSubscriptionChanged this"]
  show "used (afterReads this rs ! i)" unfolding afterReads_def .
qed

lemma new_used_afterReads:
  "t \<in> set (drop (length (handledAutoSubscriptions this)) (afterReads this rs)) \<Longrightarrow> used t"
  using new_used [of t "map unmark (handledAutoSubscriptions this)"
      "onAutoSubscriptionChanged this" rs]
  by (simp add: afterReads_def)

lemma created_pairs_afterReads:
  "set (map subscriptionPair
      (drop (length (handledAutoSubscriptions this)) (afterReads this rs))) =
   readPair ` creating (handledAutoSubscriptions this) rs"
proof -
  have "creating (map unmark (handledAutoSubscriptions this)) rs =
      creating (handledAutoSubscriptions this) rs"
    unfolding creating_def utils_find_unmark ..
  with created_pairs [of "map unmark (handledAutoSubscriptions this)"
      "onAutoSubscriptionChanged this" rs]
  show ?thesis by (simp add: afterReads_def)
qed

lemma swept_members:
  "(s \<in> set (filter used (afterReads this rs))) =
     ((\<exists>i<length (handledAutoSubscriptions this).
         s = afterReads this rs ! i \<and> used (afterReads this rs ! i)) \<or>
      s \<in> set (drop (length (handledAutoSubscriptions this)) (afterReads this rs)))"
proof -
  define n where "n = length (handledAutoSubscriptions this)"
  define F where "F = afterReads this rs"
  have nF: "n \<le> length F" unfolding n_def F_def by (rule afterReads_length)
  have "set F = set (take n F) \<union> set (drop n F)"
    by (metis append_take_drop_id set_append)
  moreover have "(s \<in> set (take n F)) = (\<exists>i<n. s = F ! i)"
    using nF by (auto simp: in_set_conv_nth)
  moreover have "s \<in> set (drop n F) \<Longrightarrow> used s"
    unfolding n_def F_def by (rule new_used_afterReads)
  ultimately show ?thesis unfolding n_def [symmetric] F_def [symmetric] by auto
qed

lemma find_Some_member:
  "List.find P xs = Some x \<Longrightarrow> x \<in> set xs \<and> P x"
  by (induction xs) (auto split: if_splits)

lemma keyAll_not_absorbed:
  assumes "snd q = Key_All"
  shows "\<not> absorbedInBuild rs q"
proof (cases "List.find (answersAsNew q) rs")
  case None
  then show ?thesis by (simp add: absorbedInBuild_def)
next
  case (Some q')
  from find_Some_member [OF Some] have "answersAsNew q q'" by simp
  with assms have "snd q' = snd q" by (auto simp: answersAsNew_def)
  with Some show ?thesis by (simp add: absorbedInBuild_def)
qed

lemma absorbed_by_read:
  assumes "absorbedInBuild rs r"
  shows "\<exists>q\<in>set rs. answersAsNew r q \<and> snd q = Key_All \<and> storeId (fst q) = storeId (fst r)"
proof (cases "List.find (answersAsNew r) rs")
  case None
  with assms show ?thesis by (simp add: absorbedInBuild_def)
next
  case (Some q)
  with assms have ne: "snd q \<noteq> snd r" by (simp add: absorbedInBuild_def)
  from find_Some_member [OF Some] have q: "q \<in> set rs" and a: "answersAsNew r q" by simp_all
  from a ne have "snd q = Key_All" and "storeId (fst q) = storeId (fst r)"
    by (auto simp: answersAsNew_def)
  with q a show ?thesis by blast
qed

lemma created_member:
  assumes "r \<in> creating (handledAutoSubscriptions this) rs"
  shows "readPair r \<in> set (map subscriptionPair (filter used (afterReads this rs)))"
proof -
  from assms have "readPair r \<in> set (map subscriptionPair
      (drop (length (handledAutoSubscriptions this)) (afterReads this rs)))"
    unfolding created_pairs_afterReads by blast
  then obtain s
    where s: "s \<in> set (drop (length (handledAutoSubscriptions this)) (afterReads this rs))"
      and p: "readPair r = subscriptionPair s" by auto
  from s have "s \<in> set (filter used (afterReads this rs))"
    unfolding swept_members [of s this rs] by blast
  with p show ?thesis by auto
qed

lemma swept_pairs_exact:
  "set (map subscriptionPair (filter used (afterReads this rs))) =
     representative this rs ` set rs"
proof (intro equalityI subsetI)
  fix x
  assume "x \<in> set (map subscriptionPair (filter used (afterReads this rs)))"
  then obtain s where s: "s \<in> set (filter used (afterReads this rs))"
    and x: "x = subscriptionPair s" by auto
  from s have "(\<exists>i<length (handledAutoSubscriptions this).
         s = afterReads this rs ! i \<and> used (afterReads this rs ! i)) \<or>
      s \<in> set (drop (length (handledAutoSubscriptions this)) (afterReads this rs))"
    unfolding swept_members [of s this rs] .
  then show "x \<in> representative this rs ` set rs"
  proof
    assume "\<exists>i<length (handledAutoSubscriptions this).
         s = afterReads this rs ! i \<and> used (afterReads this rs ! i)"
    then obtain i where i: "i < length (handledAutoSubscriptions this)"
      and e: "s = afterReads this rs ! i" and u: "used (afterReads this rs ! i)" by blast
    from u obtain r where r: "r \<in> set rs"
      and f: "findMatchingAutoSubscription this (fst r) (snd r) = Some i"
      unfolding old_marked [OF i] by blast
    from afterReads_nth_unmark [OF i, of rs]
    have "subscriptionPair (afterReads this rs ! i) =
        subscriptionPair (handledAutoSubscriptions this ! i)"
      by (rule subscriptionPair_eq_unmark)
    with f x e have "x = representative this rs r" by (simp add: representative_def)
    with r show ?thesis by blast
  next
    assume "s \<in> set (drop (length (handledAutoSubscriptions this)) (afterReads this rs))"
    then have "subscriptionPair s \<in> set (map subscriptionPair
        (drop (length (handledAutoSubscriptions this)) (afterReads this rs)))" by simp
    then obtain r where r: "r \<in> creating (handledAutoSubscriptions this) rs"
      and p: "subscriptionPair s = readPair r"
      unfolding created_pairs_afterReads by blast
    from r have rs: "r \<in> set rs"
      and "findMatchingAutoSubscription this (fst r) (snd r) = None"
      and "\<not> absorbedInBuild rs r"
      unfolding creating_def findMatching_matchesRead by simp_all
    with p x have "x = representative this rs r" by (simp add: representative_def)
    with rs show ?thesis by blast
  qed
next
  fix x
  assume "x \<in> representative this rs ` set rs"
  then obtain r where r: "r \<in> set rs" and x: "x = representative this rs r" by blast
  show "x \<in> set (map subscriptionPair (filter used (afterReads this rs)))"
  proof (cases "findMatchingAutoSubscription this (fst r) (snd r)")
    case (Some i)
    then have "utils_find (handledAutoSubscriptions this) (matchesRead (fst r) (snd r)) = Some i"
      by (simp add: findMatching_matchesRead)
    then have i: "i < length (handledAutoSubscriptions this)" by (simp add: utils_find_Some)
    from r Some have "used (afterReads this rs ! i)" unfolding old_marked [OF i] by blast
    with i have m: "afterReads this rs ! i \<in> set (filter used (afterReads this rs))"
      unfolding swept_members [of _ this rs] by blast
    from afterReads_nth_unmark [OF i, of rs]
    have "subscriptionPair (afterReads this rs ! i) =
        subscriptionPair (handledAutoSubscriptions this ! i)"
      by (rule subscriptionPair_eq_unmark)
    moreover from x Some have "x = subscriptionPair (handledAutoSubscriptions this ! i)"
      by (simp add: representative_def)
    ultimately have "x = subscriptionPair (afterReads this rs ! i)" by simp
    with m show ?thesis by (simp only: set_map image_eqI)
  next
    case None
    then have n: "utils_find (handledAutoSubscriptions this) (matchesRead (fst r) (snd r)) = None"
      by (simp add: findMatching_matchesRead)
    show ?thesis
    proof (cases "absorbedInBuild rs r")
      case False
      with r n have "r \<in> creating (handledAutoSubscriptions this) rs"
        unfolding creating_def by simp
      from created_member [OF this] x None False show ?thesis
        by (simp add: representative_def)
    next
      case True
      from absorbed_by_read [OF True] obtain q where q: "q \<in> set rs"
        and a: "answersAsNew r q" and k: "snd q = Key_All"
        and sid: "storeId (fst q) = storeId (fst r)" by blast
      have "utils_find (handledAutoSubscriptions this) (matchesRead (fst q) (snd q)) = None"
      proof (cases "utils_find (handledAutoSubscriptions this) (matchesRead (fst q) (snd q))")
        case None
        then show ?thesis .
      next
        case (Some j)
        from answered_not_None [OF Some a] n show ?thesis by simp
      qed
      with q keyAll_not_absorbed [OF k, of rs]
      have "q \<in> creating (handledAutoSubscriptions this) rs" unfolding creating_def by simp
      from created_member [OF this] have "readPair q \<in>
          set (map subscriptionPair (filter used (afterReads this rs)))" .
      moreover from k sid have "readPair q = (storeId (fst r), Key_All)"
        by (simp add: readPair_def)
      moreover from x None True have "x = (storeId (fst r), Key_All)"
        by (simp add: representative_def)
      ultimately show ?thesis by simp
    qed
  qed
qed

lemma readPair_matches:
  "readPair r = subscriptionPair s \<Longrightarrow> matchesRead (fst r) (snd r) s"
  by (simp add: readPair_def subscriptionPair_def matchesRead_def)

lemma unfound_swept:
  assumes i: "i < length (handledAutoSubscriptions this)"
    and d: "distinct (map subscriptionPair (handledAutoSubscriptions this))"
    and h: "\<forall>r\<in>set rs. findMatchingAutoSubscription this (fst r) (snd r) \<noteq> Some i"
  shows "afterReads this rs ! i = unmark (handledAutoSubscriptions this ! i)"
    and "\<not> used (afterReads this rs ! i)"
    and "\<forall>s\<in>set (filter used (afterReads this rs)).
           subscriptionPair s \<noteq> subscriptionPair (handledAutoSubscriptions this ! i)"
proof -
  define L where "L = handledAutoSubscriptions this"
  define F where "F = afterReads this rs"
  show nu: "\<not> used (afterReads this rs ! i)"
    unfolding old_marked [OF i] using h by blast
  then have "unmark (afterReads this rs ! i) = afterReads this rs ! i"
    by (rule unmark_unused)
  with afterReads_nth_unmark [OF i, of rs]
  show "afterReads this rs ! i = unmark (handledAutoSubscriptions this ! i)" by simp
  show "\<forall>s\<in>set (filter used (afterReads this rs)).
           subscriptionPair s \<noteq> subscriptionPair (handledAutoSubscriptions this ! i)"
  proof (intro ballI notI)
    fix s
    assume s: "s \<in> set (filter used (afterReads this rs))"
      and e: "subscriptionPair s = subscriptionPair (handledAutoSubscriptions this ! i)"
    from s have "(\<exists>j<length (handledAutoSubscriptions this).
         s = afterReads this rs ! j \<and> used (afterReads this rs ! j)) \<or>
      s \<in> set (drop (length (handledAutoSubscriptions this)) (afterReads this rs))"
      unfolding swept_members [of s this rs] .
    then show False
    proof
      assume "\<exists>j<length (handledAutoSubscriptions this).
         s = afterReads this rs ! j \<and> used (afterReads this rs ! j)"
      then obtain j where j: "j < length (handledAutoSubscriptions this)"
        and sj: "s = afterReads this rs ! j" and uj: "used (afterReads this rs ! j)" by blast
      from afterReads_nth_unmark [OF j, of rs]
      have "subscriptionPair (afterReads this rs ! j) =
          subscriptionPair (handledAutoSubscriptions this ! j)"
        by (rule subscriptionPair_eq_unmark)
      with e sj have "map subscriptionPair (handledAutoSubscriptions this) ! j =
          map subscriptionPair (handledAutoSubscriptions this) ! i"
        using i j by simp
      moreover from i j have "j < length (map subscriptionPair (handledAutoSubscriptions this))"
        and "i < length (map subscriptionPair (handledAutoSubscriptions this))" by simp_all
      ultimately have "j = i" using d by (simp only: nth_eq_iff_index_eq)
      with uj nu show False by simp
    next
      assume "s \<in> set (drop (length (handledAutoSubscriptions this)) (afterReads this rs))"
      then have "subscriptionPair s \<in> set (map subscriptionPair
          (drop (length (handledAutoSubscriptions this)) (afterReads this rs)))" by simp
      then obtain r where r: "r \<in> creating (handledAutoSubscriptions this) rs"
        and p: "subscriptionPair s = readPair r"
        unfolding created_pairs_afterReads by blast
      from r have n: "utils_find (handledAutoSubscriptions this)
          (matchesRead (fst r) (snd r)) = None"
        unfolding creating_def by simp
      from p e have "readPair r = subscriptionPair (handledAutoSubscriptions this ! i)" by simp
      then have "matchesRead (fst r) (snd r) (handledAutoSubscriptions this ! i)"
        by (rule readPair_matches)
      moreover from i have "handledAutoSubscriptions this ! i \<in> set (handledAutoSubscriptions this)"
        by simp
      ultimately show False using n unfolding utils_find_None by blast
    qed
  qed
qed

lemma found_kept:
  assumes i: "i < length (handledAutoSubscriptions this)"
    and u: "used (handledAutoSubscriptions this ! i)"
    and f: "\<exists>r\<in>set rs. findMatchingAutoSubscription this (fst r) (snd r) = Some i"
  shows "handledAutoSubscriptions this ! i \<in> set (filter used (afterReads this rs))"
proof -
  from f have uF: "used (afterReads this rs ! i)" unfolding old_marked [OF i] .
  from afterReads_nth_unmark [OF i, of rs]
  have "afterReads this rs ! i = handledAutoSubscriptions this ! i"
    by (rule unmark_eq_used) (simp add: uF u)
  moreover from i uF have "afterReads this rs ! i \<in> set (filter used (afterReads this rs))"
    unfolding swept_members [of _ this rs] by blast
  ultimately show ?thesis by simp
qed

lemma specific_before_all:
  fixes L0 :: "AutoSubscription list"
  assumes n0: "noKeyAll (storeId st) L0"
    and n12: "\<forall>r\<in>set (rs1 @ rs2). \<not> (storeId (fst r) = storeId st \<and> snd r = Key_All)"
    and k: "k \<noteq> Key_All"
    and M_def: "M = foldl (markRead cb) L0 (rs1 @ (st, k) # rs2)"
  shows "noKeyAll (storeId st) M"
    and "\<exists>s\<in>set M. subscriptionPair s = (storeId st, k)"
proof -
  define L1 where "L1 = foldl (markRead cb) L0 rs1"
  define L1' where "L1' = markRead cb L1 (st, k)"
  have M1: "M = foldl (markRead cb) L1' rs2"
    unfolding M_def L1'_def L1_def by simp
  have n1: "noKeyAll (storeId st) L1"
    unfolding L1_def using n0 n12 by (intro noKeyAll_foldl) simp_all
  have n1': "noKeyAll (storeId st) L1'"
    unfolding L1'_def using n1 k by (intro noKeyAll_markRead) simp_all
  show n2: "noKeyAll (storeId st) M"
    unfolding M1 using n1' n12 by (intro noKeyAll_foldl) simp_all
  from markRead_marks [of cb L1 "(st, k)"] obtain i where i: "i < length L1'"
    and f: "utils_find L1' (matchesRead st k) = Some i" and u: "used (L1' ! i)"
    unfolding L1'_def by auto
  from f have m: "matchesRead st k (L1' ! i)" by (simp add: utils_find_Some)
  from i have "L1' ! i \<in> set L1'" by simp
  with n1' m have p: "subscriptionPair (L1' ! i) = (storeId st, k)"
    by (auto simp: noKeyAll_def matchesRead_def subscriptionPair_def)
  from foldl_markRead_keeps_used [OF i u, of cb rs2]
  have iM: "i < length M" and eiM: "M ! i = L1' ! i" unfolding M1 by simp_all
  from iM have "M ! i \<in> set M" by simp
  with p eiM show "\<exists>s\<in>set M. subscriptionPair s = (storeId st, k)" by auto
qed

lemma two_of_distinct:
  assumes d: "distinct (map f L)" and a: "a \<in> set L" and b: "b \<in> set L"
    and ab: "f a \<noteq> f b"
  shows "length (filter (\<lambda>s. f s = f a \<or> f s = f b) L) = 2"
proof -
  from d have dL: "distinct L" by (rule distinct_map [THEN iffD1, THEN conjunct1])
  from d have inj: "inj_on f (set L)" by (simp add: distinct_map)
  have "set (filter (\<lambda>s. f s = f a \<or> f s = f b) L) = {a, b}"
  proof (intro equalityI subsetI)
    fix s
    assume "s \<in> set (filter (\<lambda>s. f s = f a \<or> f s = f b) L)"
    then have s: "s \<in> set L" and "f s = f a \<or> f s = f b" by simp_all
    then have "s = a \<or> s = b" using inj a b by (auto dest: inj_onD)
    then show "s \<in> {a, b}" by simp
  next
    fix s
    assume "s \<in> {a, b}"
    then show "s \<in> set (filter (\<lambda>s. f s = f a \<or> f s = f b) L)" using a b by auto
  qed
  moreover from dL have "distinct (filter (\<lambda>s. f s = f a \<or> f s = f b) L)" by simp
  ultimately have "length (filter (\<lambda>s. f s = f a \<or> f s = f b) L) = card {a, b}"
    using distinct_card by fastforce
  moreover from ab have "a \<noteq> b" by auto
  ultimately show ?thesis by simp
qed

section \<open>The claims\<close>

subsection \<open>C1: the registry after a completed build\<close>

text \<open>
  C1. When \<^verbatim>\<open>_buildStateWithAutoSubscriptions\<close> returns, from whatever registry it started:
  no two subscriptions of the registry have the same (storeId, key); the (storeId, key) pairs
  of the registry are exactly the pairs that represent the reads of the build, no pair missing
  and no pair extra, where a read is represented by the pair of the subscription the starting
  registry answers it with (its own, or a \<^verbatim>\<open>Key_All\<close> subscription absorbing it), else by
  (storeId, \<^verbatim>\<open>Key_All\<close>) if an earlier \<^verbatim>\<open>Key_All\<close> read of the build absorbs it, else by its
  own pair; every read of the build is answered by a subscription of the registry; every
  subscription of the registry is marked used and answers some read of the build.
\<close>

theorem exact_subscription_set:
  assumes "buildStateWithAutoSubscriptions amb this p initialBuild = (Inr state, this', calls)"
  shows "distinct (map subscriptionPair (handledAutoSubscriptions this')) \<and>
    set (map subscriptionPair (handledAutoSubscriptions this')) =
      representative this (reads (buildState amb p initialBuild)) `
        set (reads (buildState amb p initialBuild)) \<and>
    (\<forall>r\<in>set (reads (buildState amb p initialBuild)).
        \<exists>s\<in>set (handledAutoSubscriptions this'). matchesRead (fst r) (snd r) s) \<and>
    (\<forall>s\<in>set (handledAutoSubscriptions this').
        used s \<and>
        (\<exists>r\<in>set (reads (buildState amb p initialBuild)). matchesRead (fst r) (snd r) s))"
  unfolding build_Inr_registry [OF assms]
  using swept_distinct swept_covers swept_needed swept_pairs_exact by blast

theorem exact_subscription_set_witness:
  "buildStateWithAutoSubscriptions
     (ambientWith [(storeA, ''x''), (storeB, ''y''), (storeA, Key_All), (storeA, ''w'')]
        (Inr None))
     (ownerWith [subscriptionOf storeB Key_All True, subscriptionOf storeA ''z'' True] True)
     0 False =
   (Inr None,
    ownerWith [subscriptionOf storeB Key_All True, subscriptionOf storeA ''x'' True,
      subscriptionOf storeA Key_All True] True,
    [BuildState 0 False, TrackAutoSubscription (subscriptionOf storeA ''x'' True),
     TrackAutoSubscription (subscriptionOf storeA Key_All True),
     RemoveAutoSubscription (subscriptionOf storeA ''z'' False)]) \<and>
   map (representative
         (ownerWith [subscriptionOf storeB Key_All True, subscriptionOf storeA ''z'' True] True)
         [(storeA, ''x''), (storeB, ''y''), (storeA, Key_All), (storeA, ''w'')])
     [(storeA, ''x''), (storeB, ''y''), (storeA, Key_All), (storeA, ''w'')] =
   [(''A'', ''x''), (''B'', Key_All), (''A'', Key_All), (''A'', Key_All)] \<and>
   set (map subscriptionPair
     [subscriptionOf storeB Key_All True, subscriptionOf storeA ''x'' True,
      subscriptionOf storeA Key_All True]) =
   {(''A'', ''x''), (''B'', Key_All), (''A'', Key_All)}"
proof -
  have h: "buildStateWithAutoSubscriptions
     (ambientWith [(storeA, ''x''), (storeB, ''y''), (storeA, Key_All), (storeA, ''w'')]
        (Inr None))
     (ownerWith [subscriptionOf storeB Key_All True, subscriptionOf storeA ''z'' True] True)
     0 False =
   (Inr None,
    ownerWith [subscriptionOf storeB Key_All True, subscriptionOf storeA ''x'' True,
      subscriptionOf storeA Key_All True] True,
    [BuildState 0 False, TrackAutoSubscription (subscriptionOf storeA ''x'' True),
     TrackAutoSubscription (subscriptionOf storeA Key_All True),
     RemoveAutoSubscription (subscriptionOf storeA ''z'' False)])"
    by (simp add: run_defs)
  have r: "map (representative
         (ownerWith [subscriptionOf storeB Key_All True, subscriptionOf storeA ''z'' True] True)
         [(storeA, ''x''), (storeB, ''y''), (storeA, Key_All), (storeA, ''w'')])
     [(storeA, ''x''), (storeB, ''y''), (storeA, Key_All), (storeA, ''w'')] =
   [(''A'', ''x''), (''B'', Key_All), (''A'', Key_All), (''A'', Key_All)]"
    by (simp add: representative_def absorbedInBuild_def answersAsNew_def
        subscriptionPair_def readPair_def run_defs)
  from exact_subscription_set [OF h]
  have "set (map subscriptionPair (handledAutoSubscriptions
      (ownerWith [subscriptionOf storeB Key_All True, subscriptionOf storeA ''x'' True,
        subscriptionOf storeA Key_All True] True))) =
    set (map (representative
         (ownerWith [subscriptionOf storeB Key_All True, subscriptionOf storeA ''z'' True] True)
         [(storeA, ''x''), (storeB, ''y''), (storeA, Key_All), (storeA, ''w'')])
     [(storeA, ''x''), (storeB, ''y''), (storeA, Key_All), (storeA, ''w'')])"
    by (simp add: ambientWith_def)
  then have "set (map subscriptionPair
     [subscriptionOf storeB Key_All True, subscriptionOf storeA ''x'' True,
      subscriptionOf storeA Key_All True]) =
   {(''A'', ''x''), (''B'', Key_All), (''A'', Key_All)}"
    unfolding r by (simp add: ownerWith_def)
  with h r show ?thesis by blast
qed

subsection \<open>C3: a rebuild with the same reads\<close>

text \<open>
  C3. After a completed build, a second build that performs the same sequence of reads and
  returns leaves the instance, registry and marks included, exactly as the first build left it,
  and its calls are only the instrumentation hooks and the call to \<^verbatim>\<open>_buildState\<close>: no
  \<^verbatim>\<open>trackAutoSubscription\<close> and no \<^verbatim>\<open>removeAutoSubscription\<close>.
\<close>

theorem rebuild_idempotent:
  assumes "buildStateWithAutoSubscriptions amb1 this p1 initialBuild1 = (Inr state1, this1, calls1)"
    and "reads (buildState amb2 p2 initialBuild2) = reads (buildState amb1 p1 initialBuild1)"
    and "outcome (buildState amb2 p2 initialBuild2) = Inr state2"
  shows "buildStateWithAutoSubscriptions amb2 this1 p2 initialBuild2 =
     (Inr state2, this1,
      (if instrumentationImpl amb2 then [BeginBuildState] else []) @
      [BuildState p2 initialBuild2] @
      (if instrumentationImpl amb2 then [EndBuildState] else []))"
proof -
  define rs where "rs = reads (buildState amb1 p1 initialBuild1)"
  have t: "this1 = this\<lparr>handledAutoSubscriptions := filter used (afterReads this rs)\<rparr>"
    unfolding rs_def using assms(1) by (rule build_Inr_instance)
  have a: "afterReads this1 rs = filter used (afterReads this rs)"
    unfolding t by (rule afterReads_swept)
  have h: "handledAutoSubscriptions this1 = filter used (afterReads this rs)"
    unfolding t by simp
  have i: "this1\<lparr>handledAutoSubscriptions := filter used (afterReads this rs)\<rparr> = this1"
    unfolding t by simp
  show ?thesis
    unfolding build_completed [OF assms(3)] assms(2) rs_def [symmetric] a h
    by (simp add: filter_unused_used i)
qed

theorem rebuild_idempotent_witness:
  "buildStateWithAutoSubscriptions
     (ambientWith [(storeA, ''x''), (storeB, Key_All), (storeB, ''y'')] (Inr None))
     (ownerWith [subscriptionOf storeB ''z'' True] True) 0 True =
   (Inr None,
    ownerWith [subscriptionOf storeA ''x'' True, subscriptionOf storeB Key_All True] True,
    [BuildState 0 True, TrackAutoSubscription (subscriptionOf storeA ''x'' True),
     TrackAutoSubscription (subscriptionOf storeB Key_All True),
     RemoveAutoSubscription (subscriptionOf storeB ''z'' False)]) \<and>
   buildStateWithAutoSubscriptions
     (ambientWith [(storeA, ''x''), (storeB, Key_All), (storeB, ''y'')] (Inr (Some [(''n'', 1)])))
     (ownerWith [subscriptionOf storeA ''x'' True, subscriptionOf storeB Key_All True] True)
     5 False =
   (Inr (Some [(''n'', 1)]),
    ownerWith [subscriptionOf storeA ''x'' True, subscriptionOf storeB Key_All True] True,
    [BuildState 5 False])"
proof -
  have h1: "buildStateWithAutoSubscriptions
     (ambientWith [(storeA, ''x''), (storeB, Key_All), (storeB, ''y'')] (Inr None))
     (ownerWith [subscriptionOf storeB ''z'' True] True) 0 True =
   (Inr None,
    ownerWith [subscriptionOf storeA ''x'' True, subscriptionOf storeB Key_All True] True,
    [BuildState 0 True, TrackAutoSubscription (subscriptionOf storeA ''x'' True),
     TrackAutoSubscription (subscriptionOf storeB Key_All True),
     RemoveAutoSubscription (subscriptionOf storeB ''z'' False)])"
    by (simp add: run_defs)
  have h2: "reads (buildState
       (ambientWith [(storeA, ''x''), (storeB, Key_All), (storeB, ''y'')]
          (Inr (Some [(''n'', 1)]))) 5 False) =
     reads (buildState
       (ambientWith [(storeA, ''x''), (storeB, Key_All), (storeB, ''y'')] (Inr None)) 0 True)"
    by (simp add: ambientWith_def)
  have h3: "outcome (buildState
       (ambientWith [(storeA, ''x''), (storeB, Key_All), (storeB, ''y'')]
          (Inr (Some [(''n'', 1)]))) 5 False) = Inr (Some [(''n'', 1)])"
    by (simp add: ambientWith_def)
  from rebuild_idempotent [OF h1 h2 h3] h1 show ?thesis
    by (simp add: ambientWith_def)
qed

subsection \<open>C5: teardown\<close>

text \<open>
  C5. \<^verbatim>\<open>componentWillUnmount\<close>, whatever the registry holds (nothing included), calls
  \<^verbatim>\<open>removeAutoSubscription\<close> once for each subscription, in registry order and with the
  subscription's mark reset to false, leaves the registry empty and the mounted flag false.
  Afterwards the owner's callback does nothing, however often a store invokes it and whatever
  the build function would do: no build, no \<^verbatim>\<open>setState\<close>, the instance unchanged.
\<close>

theorem teardown_complete:
  "handledAutoSubscriptions (fst (componentWillUnmount this)) = [] \<and>
   \<not> isMounted (fst (componentWillUnmount this)) \<and>
   snd (componentWillUnmount this) =
     map (\<lambda>s. RemoveAutoSubscription (s\<lparr>used := False\<rparr>)) (handledAutoSubscriptions this) \<and>
   onAutoSubscriptionChangedUnbound amb (fst (componentWillUnmount this)) =
     (Inr (), fst (componentWillUnmount this), []) \<and>
   lifecycle (fst (componentWillUnmount this)) (map (\<lambda>a. (a, OnAutoSubscriptionChanged)) ambs) =
     (None, fst (componentWillUnmount this), [])"
proof -
  have "\<not> isMounted (fst (componentWillUnmount this))"
    by (simp add: componentWillUnmount_def)
  from unmounted_notifications [OF this, of ambs] show ?thesis
    by (simp add: componentWillUnmount_def onAutoSubscriptionChangedUnbound_def
        isComponentMounted_def)
qed

theorem teardown_complete_witness:
  "componentWillUnmount
     (ownerWith [subscriptionOf storeA ''x'' True, subscriptionOf storeB Key_All True] True) =
   (ownerWith [] False,
    [RemoveAutoSubscription (subscriptionOf storeA ''x'' False),
     RemoveAutoSubscription (subscriptionOf storeB Key_All False) :: (nat, nat) Call]) \<and>
   onAutoSubscriptionChangedUnbound
     (ambientWith [(storeA, ''x'')] (Inr (Some [(''n'', 1)]))) (ownerWith [] False) =
   (Inr (), ownerWith [] False, []) \<and>
   lifecycle (ownerWith [] False)
     [(ambientWith [(storeA, ''x'')] (Inr (Some [(''n'', 1)])), OnAutoSubscriptionChanged),
      (ambientWith [(storeB, ''y'')] (Inl (Error ''fault'')), OnAutoSubscriptionChanged)] =
   (None, ownerWith [] False, [])"
  using teardown_complete
    [of "ownerWith [subscriptionOf storeA ''x'' True, subscriptionOf storeB Key_All True] True"
        "ambientWith [(storeA, ''x'')] (Inr (Some [(''n'', 1)]))"
        "[ambientWith [(storeA, ''x'')] (Inr (Some [(''n'', 1)])),
          ambientWith [(storeB, ''y'')] (Inl (Error ''fault''))]"]
  by (simp add: componentWillUnmount_def ownerWith_def subscriptionOf_def
      onAutoSubscriptionChangedUnbound_def isComponentMounted_def)

subsection \<open>C6: equal props skip the build\<close>

text \<open>
  C6, as the code has it. When the comparator judges the present and the next props equal,
  \<^verbatim>\<open>_handleUpdate\<close> returns null, leaves the instance untouched and makes no call but
  the comparison itself: the build function is not invoked and no store is called. With a
  comparator that always answers equal, a mounted instance keeps its registry through every
  sequence of props evaluations, mounts and updates, and the only calls made are comparisons.
\<close>

theorem equal_props_skip_build:
  "(shouldComponentUpdateComparator amb (props this) nextProps \<longrightarrow>
      handleUpdate amb this nextProps =
        (Inr None, this, [ShouldComponentUpdateComparator (props this) nextProps])) \<and>
   (isMounted this \<and>
    (\<forall>x\<in>set es. (\<forall>a b. shouldComponentUpdateComparator (fst x) a b) \<and>
        snd x \<noteq> ComponentWillUnmount \<and> snd x \<noteq> OnAutoSubscriptionChanged) \<longrightarrow>
      (\<exists>this' calls. lifecycle this es = (None, this', calls) \<and>
         handledAutoSubscriptions this' = handledAutoSubscriptions this \<and>
         isMounted this' \<and> list_all isComparison calls))"
  using handleUpdate_equal [of amb this nextProps] lifecycle_equal_policy [of this es]
  by blast

theorem equal_props_skip_build_witness:
  "shouldComponentUpdateComparator
     (alwaysEqual (ambientWith [(storeB, ''y'')] (Inr (Some [(''n'', 1)]))))
     (props (ownerWith [subscriptionOf storeA ''x'' True] True)) 3 \<and>
   handleUpdate (alwaysEqual (ambientWith [(storeB, ''y'')] (Inr (Some [(''n'', 1)]))))
     (ownerWith [subscriptionOf storeA ''x'' True] True) 3 =
   (Inr None, ownerWith [subscriptionOf storeA ''x'' True] True,
    [ShouldComponentUpdateComparator 0 3]) \<and>
   lifecycle (ownerWith [subscriptionOf storeA ''x'' True] True)
     [(alwaysEqual (ambientWith [(storeB, ''y'')] (Inr (Some [(''n'', 1)]))),
       GetDerivedStateFromProps 3),
      (alwaysEqual (ambientWith [(storeB, ''y'')] (Inr (Some [(''n'', 1)]))),
       ComponentDidUpdate),
      (alwaysEqual (ambientWith [(storeB, ''y'')] (Inl (Error ''fault''))),
       GetDerivedStateFromProps 4)] =
   (None, (ownerWith [subscriptionOf storeA ''x'' True] True)\<lparr>props := 4\<rparr>,
    [ShouldComponentUpdateComparator 0 3, ShouldComponentUpdateComparator 3 4])"
  using equal_props_skip_build
    [of "alwaysEqual (ambientWith [(storeB, ''y'')] (Inr (Some [(''n'', 1)])))"
        "ownerWith [subscriptionOf storeA ''x'' True] True" 3
        "[(alwaysEqual (ambientWith [(storeB, ''y'')] (Inr (Some [(''n'', 1)]))),
           GetDerivedStateFromProps 3),
          (alwaysEqual (ambientWith [(storeB, ''y'')] (Inr (Some [(''n'', 1)]))),
           ComponentDidUpdate),
          (alwaysEqual (ambientWith [(storeB, ''y'')] (Inl (Error ''fault''))),
           GetDerivedStateFromProps 4)]"]
  by (simp add: alwaysEqual_def ambientWith_def ownerWith_def getDerivedStateFromProps_def
      handleUpdate_def componentDidUpdate_def)

text \<open>
  C6 as stated fails in its last part: the store-change callback does not consult the
  comparator, so with a comparator that always answers equal a store notification still
  rebuilds and the registry leaves its contents of the initial build.
\<close>

theorem equal_props_skip_build_counterexample:
  "lifecycle (constructor (0::nat) 7)
     [(alwaysEqual (ambientWith [(storeA, ''x'')] (Inr None)), GetDerivedStateFromProps 0),
      (alwaysEqual (ambientWith [(storeA, ''x'')] (Inr None)), ComponentDidMount),
      (alwaysEqual (ambientWith [(storeB, ''y'')] (Inr None)), GetDerivedStateFromProps 3),
      (alwaysEqual (ambientWith [(storeB, ''y'')] (Inr None)), OnAutoSubscriptionChanged)] =
   (None, ownerWith [subscriptionOf storeB ''y'' True] True\<lparr>props := 3\<rparr>,
    [BuildState 0 True, TrackAutoSubscription (subscriptionOf storeA ''x'' True),
     ShouldComponentUpdateComparator 0 3, BuildState 3 False,
     TrackAutoSubscription (subscriptionOf storeB ''y'' True),
     RemoveAutoSubscription (subscriptionOf storeA ''x'' False)])"
  by (simp add: run_defs life_defs alwaysEqual_def)

subsection \<open>C7: a build function that throws\<close>

text \<open>
  C7. When \<^verbatim>\<open>_buildState\<close> throws, \<^verbatim>\<open>_buildStateWithAutoSubscriptions\<close> ends with that very
  exception, and so do \<^verbatim>\<open>_buildInitialState\<close>, \<^verbatim>\<open>_handleUpdate\<close>, the store-change callback
  and \<^verbatim>\<open>getDerivedStateFromProps\<close> when they are the caller. The sweep has not run:
  \<^verbatim>\<open>removeAutoSubscription\<close> is never called; every subscription tracked before the fault is
  in the registry; every read made before the fault has a subscription marked used in the
  registry; and the subscriptions the registry held before the build are all still there, in
  place, differing from before at most in their mark.
\<close>

theorem build_fault_propagates:
  fixes amb :: "('p, 'v) Ambient"
  assumes "outcome (buildState amb p initialBuild) = Inl e"
  shows "\<exists>this' calls.
     buildStateWithAutoSubscriptions amb this p initialBuild = (Inl e, this', calls) \<and>
     (\<forall>s. RemoveAutoSubscription s \<notin> set calls) \<and>
     (\<forall>s. TrackAutoSubscription s \<in> set calls \<longrightarrow> s \<in> set (handledAutoSubscriptions this')) \<and>
     (\<forall>r\<in>set (reads (buildState amb p initialBuild)).
         \<exists>s\<in>set (handledAutoSubscriptions this'). used s \<and> matchesRead (fst r) (snd r) s) \<and>
     length (handledAutoSubscriptions this) \<le> length (handledAutoSubscriptions this') \<and>
     map unmark (take (length (handledAutoSubscriptions this)) (handledAutoSubscriptions this')) =
       map unmark (handledAutoSubscriptions this) \<and>
     (p = props this \<and> initialBuild \<longrightarrow> buildInitialState amb this = (Inl e, this', calls)) \<and>
     (\<not> initialBuild \<and> \<not> shouldComponentUpdateComparator amb (props this) p \<longrightarrow>
        handleUpdate amb this p =
          (Inl e, this', ShouldComponentUpdateComparator (props this) p # calls)) \<and>
     (p = props this \<and> \<not> initialBuild \<and> isMounted this \<longrightarrow>
        onAutoSubscriptionChangedUnbound amb this = (Inl e, this', calls)) \<and>
     (p = props this \<and> initialBuild \<and> \<not> isMounted this \<longrightarrow>
        getDerivedStateFromProps amb nextProps (Some \<lparr>getInstance = Some this\<rparr>) =
          (Inl e, Some this', calls))"
proof -
  define F where "F = afterReads this (reads (buildState amb p initialBuild))"
  define calls :: "('p, 'v) Call list" where
    "calls = (if instrumentationImpl amb then [BeginBuildState] else []) @
      [BuildState p initialBuild] @
      map TrackAutoSubscription (drop (length (handledAutoSubscriptions this)) F)"
  note f = build_fault_facts [OF assms F_def calls_def]
  have b: "buildStateWithAutoSubscriptions amb this p initialBuild =
      (Inl e, this\<lparr>handledAutoSubscriptions := F\<rparr>, calls)" by (rule f(1))
  have 1: "\<forall>s. RemoveAutoSubscription s \<notin> set calls" using f(2) by blast
  have 2: "\<forall>s. TrackAutoSubscription s \<in> set calls \<longrightarrow> s \<in> set F" using f(3) by blast
  have 3: "\<forall>r\<in>set (reads (buildState amb p initialBuild)).
         \<exists>s\<in>set F. used s \<and> matchesRead (fst r) (snd r) s"
    unfolding F_def using afterReads_covers by blast
  have 4: "length (handledAutoSubscriptions this) \<le> length F"
    unfolding F_def by (rule afterReads_length)
  have 5: "map unmark (take (length (handledAutoSubscriptions this)) F) =
       map unmark (handledAutoSubscriptions this)"
    unfolding F_def by (rule afterReads_prefix)
  have 6: "p = props this \<and> initialBuild \<longrightarrow>
      buildInitialState amb this = (Inl e, this\<lparr>handledAutoSubscriptions := F\<rparr>, calls)"
    using b by (auto simp: buildInitialState_def)
  have 7: "\<not> initialBuild \<and> \<not> shouldComponentUpdateComparator amb (props this) p \<longrightarrow>
        handleUpdate amb this p =
          (Inl e, this\<lparr>handledAutoSubscriptions := F\<rparr>,
           ShouldComponentUpdateComparator (props this) p # calls)"
    using b by (auto simp: handleUpdate_def)
  have 8: "p = props this \<and> \<not> initialBuild \<and> isMounted this \<longrightarrow>
        onAutoSubscriptionChangedUnbound amb this =
          (Inl e, this\<lparr>handledAutoSubscriptions := F\<rparr>, calls)"
    using b by (auto simp: onAutoSubscriptionChangedUnbound_def isComponentMounted_def)
  have 9: "p = props this \<and> initialBuild \<and> \<not> isMounted this \<longrightarrow>
        getDerivedStateFromProps amb nextProps (Some \<lparr>getInstance = Some this\<rparr>) =
          (Inl e, Some (this\<lparr>handledAutoSubscriptions := F\<rparr>), calls)"
    using 6 by (auto simp: getDerivedStateFromProps_def)
  from b 1 2 3 4 5 6 7 8 9 show ?thesis by simp
qed

theorem build_fault_propagates_witness:
  "outcome (buildState (ambientWith [(storeA, ''x''), (storeB, ''y'')] (Inl (Error ''fault'')))
     0 False) = Inl (Error ''fault'') \<and>
   buildStateWithAutoSubscriptions
     (ambientWith [(storeA, ''x''), (storeB, ''y'')] (Inl (Error ''fault'')))
     (ownerWith [subscriptionOf storeB ''z'' True, subscriptionOf storeA ''x'' True] True)
     0 False =
   (Inl (Error ''fault''),
    ownerWith [subscriptionOf storeB ''z'' False, subscriptionOf storeA ''x'' True,
      subscriptionOf storeB ''y'' True] True,
    [BuildState 0 False, TrackAutoSubscription (subscriptionOf storeB ''y'' True)]) \<and>
   onAutoSubscriptionChangedUnbound
     (ambientWith [(storeA, ''x''), (storeB, ''y'')] (Inl (Error ''fault'')))
     (ownerWith [subscriptionOf storeB ''z'' True, subscriptionOf storeA ''x'' True] True) =
   (Inl (Error ''fault''),
    ownerWith [subscriptionOf storeB ''z'' False, subscriptionOf storeA ''x'' True,
      subscriptionOf storeB ''y'' True] True,
    [BuildState 0 False, TrackAutoSubscription (subscriptionOf storeB ''y'' True)]) \<and>
   handleUpdate
     (ambientWith [(storeA, ''x''), (storeB, ''y'')] (Inl (Error ''fault'')))
     (ownerWith [subscriptionOf storeB ''z'' True, subscriptionOf storeA ''x'' True] True) 3 =
   (Inl (Error ''fault''),
    ownerWith [subscriptionOf storeB ''z'' False, subscriptionOf storeA ''x'' True,
      subscriptionOf storeB ''y'' True] True,
    [ShouldComponentUpdateComparator 0 3, BuildState 3 False,
     TrackAutoSubscription (subscriptionOf storeB ''y'' True)]) \<and>
   getDerivedStateFromProps
     (ambientWith [(storeA, ''x''), (storeB, ''y'')] (Inl (Error ''fault''))) 3
     (Some \<lparr>getInstance = Some (ownerWith [] False)\<rparr>) =
   (Inl (Error ''fault''),
    Some (ownerWith [subscriptionOf storeA ''x'' True, subscriptionOf storeB ''y'' True] False),
    [BuildState 0 True, TrackAutoSubscription (subscriptionOf storeA ''x'' True),
     TrackAutoSubscription (subscriptionOf storeB ''y'' True)])"
proof -
  have h: "outcome (buildState
      (ambientWith [(storeA, ''x''), (storeB, ''y'')] (Inl (Error ''fault''))) p b) =
      Inl (Error ''fault'')" for p b
    by (simp add: ambientWith_def)
  from build_fault_propagates [OF h [of 0 False],
      of "ownerWith [subscriptionOf storeB ''z'' True, subscriptionOf storeA ''x'' True] True" 3]
    build_fault_propagates [OF h [of 3 False],
      of "ownerWith [subscriptionOf storeB ''z'' True, subscriptionOf storeA ''x'' True] True" 3]
    build_fault_propagates [OF h [of 0 True], of "ownerWith [] False" 3]
  show ?thesis
    by (simp add: run_defs handleUpdate_def onAutoSubscriptionChangedUnbound_def
        isComponentMounted_def getDerivedStateFromProps_def buildInitialState_def)
qed

subsection \<open>C10: an undefined or empty draft\<close>

text \<open>
  C10. When \<^verbatim>\<open>_buildState\<close> returns \<^verbatim>\<open>undefined\<close> or an object without keys, the initial
  build yields the empty object; \<^verbatim>\<open>_handleUpdate\<close> returns null; and the store-change
  callback returns without calling \<^verbatim>\<open>setState\<close>. The \<^verbatim>\<open>_buildState\<close> of the base class
  returns \<^verbatim>\<open>undefined\<close> and reads no store: on an instance with an empty registry every build
  with it leaves the instance unchanged and calls no store, and the initial state is the empty
  object.
\<close>

theorem empty_build_result:
  "(outcome (buildState amb (props this) True) = Inr None \<or>
    outcome (buildState amb (props this) True) = Inr (Some []) \<longrightarrow>
      fst (buildInitialState amb this) = Inr []) \<and>
   (buildState amb = buildState_default \<and> handledAutoSubscriptions this = [] \<longrightarrow>
      buildStateWithAutoSubscriptions amb this p initialBuild =
        (Inr None, this,
         (if instrumentationImpl amb then [BeginBuildState] else []) @
         [BuildState p initialBuild] @
         (if instrumentationImpl amb then [EndBuildState] else [])) \<and>
      buildInitialState amb this =
        (Inr [], this,
         (if instrumentationImpl amb then [BeginBuildState] else []) @
         [BuildState (props this) True] @
         (if instrumentationImpl amb then [EndBuildState] else []))) \<and>
   (outcome (buildState amb nextProps False) = Inr None \<or>
    outcome (buildState amb nextProps False) = Inr (Some []) \<longrightarrow>
      fst (handleUpdate amb this nextProps) = Inr None) \<and>
   (outcome (buildState amb (props this) False) = Inr None \<or>
    outcome (buildState amb (props this) False) = Inr (Some []) \<longrightarrow>
      fst (onAutoSubscriptionChangedUnbound amb this) = Inr () \<and>
      (\<forall>d. SetState d \<notin> set (snd (snd (onAutoSubscriptionChangedUnbound amb this)))))"
proof (intro conjI impI allI)
  assume "outcome (buildState amb (props this) True) = Inr None \<or>
    outcome (buildState amb (props this) True) = Inr (Some [])"
  then show "fst (buildInitialState amb this) = Inr []" by (rule buildInitialState_empty)
next
  assume a: "buildState amb = buildState_default \<and> handledAutoSubscriptions this = []"
  then show "buildStateWithAutoSubscriptions amb this p initialBuild =
        (Inr None, this,
         (if instrumentationImpl amb then [BeginBuildState] else []) @
         [BuildState p initialBuild] @
         (if instrumentationImpl amb then [EndBuildState] else []))"
    by (simp add: build_default)
  from a show "buildInitialState amb this =
        (Inr [], this,
         (if instrumentationImpl amb then [BeginBuildState] else []) @
         [BuildState (props this) True] @
         (if instrumentationImpl amb then [EndBuildState] else []))"
    by (simp add: buildInitialState_def build_default)
next
  assume "outcome (buildState amb nextProps False) = Inr None \<or>
    outcome (buildState amb nextProps False) = Inr (Some [])"
  then show "fst (handleUpdate amb this nextProps) = Inr None" by (rule handleUpdate_empty)
next
  assume a: "outcome (buildState amb (props this) False) = Inr None \<or>
    outcome (buildState amb (props this) False) = Inr (Some [])"
  from onAutoSubscriptionChanged_empty [OF a]
  show "fst (onAutoSubscriptionChangedUnbound amb this) = Inr ()" by simp
  fix d
  from onAutoSubscriptionChanged_empty [OF a, of d]
  show "SetState d \<notin> set (snd (snd (onAutoSubscriptionChangedUnbound amb this)))" by simp
qed

theorem empty_build_result_witness:
  "buildState ambientDefault = buildState_default \<and>
   handledAutoSubscriptions (constructor (0::nat) 7) = [] \<and>
   buildInitialState ambientDefault (constructor 0 7) =
     (Inr [], constructor 0 7, [BeginBuildState, BuildState 0 True, EndBuildState]) \<and>
   buildStateWithAutoSubscriptions ambientDefault (constructor 0 7) 3 False =
     (Inr None, constructor 0 7, [BeginBuildState, BuildState 3 False, EndBuildState]) \<and>
   outcome (buildState (ambientWith [(storeA, ''x'')] (Inr (Some []))) 3 False) = Inr (Some []) \<and>
   fst (buildInitialState (ambientWith [(storeA, ''x'')] (Inr (Some []))) (ownerWith [] True)) =
     Inr [] \<and>
   handleUpdate (ambientWith [(storeA, ''x'')] (Inr (Some []))) (ownerWith [] True) 3 =
     (Inr None, ownerWith [subscriptionOf storeA ''x'' True] True,
      [ShouldComponentUpdateComparator 0 3, BuildState 3 False,
       TrackAutoSubscription (subscriptionOf storeA ''x'' True)]) \<and>
   onAutoSubscriptionChangedUnbound (ambientWith [(storeA, ''x'')] (Inr (Some [])))
       (ownerWith [] True) =
     (Inr (), ownerWith [subscriptionOf storeA ''x'' True] True,
      [BuildState 0 False, TrackAutoSubscription (subscriptionOf storeA ''x'' True)])"
  using empty_build_result [of ambientDefault "constructor 0 7" 3 False 3]
    empty_build_result
      [of "ambientWith [(storeA, ''x'')] (Inr (Some []))" "ownerWith [] True" 3 False 3]
  by (simp add: run_defs ambientDefault_def constructor_def handleUpdate_def
      onAutoSubscriptionChangedUnbound_def isComponentMounted_def buildInitialState_def
      buildState_default_def)

subsection \<open>C9: \<^verbatim>\<open>Key_All\<close> read after a specific key\<close>

text \<open>
  C9, as the code has it. In a completed build whose reads contain a specific key \<open>k\<close> on a
  store and, later, \<^verbatim>\<open>Key_All\<close> on a store with the same storeId, where neither the registry
  before the build nor any earlier read of the build brought a \<^verbatim>\<open>Key_All\<close> subscription for
  that storeId. Let \<open>mid\<close> be the instance when the \<^verbatim>\<open>Key_All\<close> read arrives. Then the
  registry of \<open>mid\<close> holds a subscription for (storeId, \<open>k\<close>), which the \<^verbatim>\<open>Key_All\<close> read
  does not match; \<^verbatim>\<open>_findMatchingAutoSubscription\<close> finds nothing for the read, and
  \<^verbatim>\<open>_handleAutoSubscribe\<close> appends a new \<^verbatim>\<open>Key_All\<close> subscription and calls
  \<^verbatim>\<open>trackAutoSubscription\<close> for it. The registry ends the build holding a subscription for
  (storeId, \<open>k\<close>) and the new \<^verbatim>\<open>Key_All\<close> subscription, and exactly two subscriptions
  for that storeId with key \<open>k\<close> or \<^verbatim>\<open>Key_All\<close>.
\<close>

theorem key_all_after_specific:
  fixes amb :: "('p, 'v) Ambient" and cs :: "('p, 'v) Call list"
  assumes b: "buildStateWithAutoSubscriptions amb this p initialBuild = (Inr state, this', calls)"
    and rs: "reads (buildState amb p initialBuild) = rs1 @ (st, k) # rs2 @ (st', Key_All) # rs3"
    and sid: "storeId st' = storeId st"
    and k: "k \<noteq> Key_All"
    and n0: "\<forall>s\<in>set (handledAutoSubscriptions this).
               \<not> (storeId (store s) = storeId st \<and> key s = Key_All)"
    and n12: "\<forall>r\<in>set (rs1 @ rs2). \<not> (storeId (fst r) = storeId st \<and> snd r = Key_All)"
    and mid: "enableAutoSubscribe
               (this\<lparr>handledAutoSubscriptions :=
                   map (\<lambda>sub. sub\<lparr>used := False\<rparr>) (handledAutoSubscriptions this)\<rparr>)
               (rs1 @ (st, k) # rs2) = (mid, cs)"
  shows "(\<exists>s\<in>set (handledAutoSubscriptions mid).
            subscriptionPair s = (storeId st, k) \<and> \<not> matchesRead st' Key_All s) \<and>
    findMatchingAutoSubscription mid st' Key_All = None \<and>
    handleAutoSubscribe mid st' Key_All =
      (mid\<lparr>handledAutoSubscriptions := handledAutoSubscriptions mid @
          [\<lparr>store = st', key = Key_All, callback = onAutoSubscriptionChanged this, used = True\<rparr>]\<rparr>,
       [TrackAutoSubscription
          \<lparr>store = st', key = Key_All, callback = onAutoSubscriptionChanged this, used = True\<rparr>
        :: ('p, 'v) Call]) \<and>
    (\<exists>s\<in>set (handledAutoSubscriptions this').
            subscriptionPair s = (storeId st, k) \<and> \<not> matchesRead st' Key_All s) \<and>
    \<lparr>store = st', key = Key_All, callback = onAutoSubscriptionChanged this, used = True\<rparr>
      \<in> set (handledAutoSubscriptions this') \<and>
    TrackAutoSubscription
      \<lparr>store = st', key = Key_All, callback = onAutoSubscriptionChanged this, used = True\<rparr>
      \<in> set calls \<and>
    length (filter (\<lambda>s. storeId (store s) = storeId st \<and> (key s = k \<or> key s = Key_All))
      (handledAutoSubscriptions this')) = 2"
proof -
  define F where "F = afterReads this (reads (buildState amb p initialBuild))"
  define new where
    "new = \<lparr>store = st', key = Key_All, callback = onAutoSubscriptionChanged this, used = True\<rparr>"
  define M where "M = foldl (markRead (onAutoSubscriptionChanged this))
      (map unmark (handledAutoSubscriptions this)) (rs1 @ (st, k) # rs2)"
  have h: "handledAutoSubscriptions this' = filter used F"
    unfolding F_def using b by (rule build_Inr_registry)
  have n: "noKeyAll (storeId st) (map unmark (handledAutoSubscriptions this))"
    unfolding noKeyAll_unmark using n0 by (simp add: noKeyAll_def)
  have Fd: "F = foldl (markRead (onAutoSubscriptionChanged this))
      (map unmark (handledAutoSubscriptions this))
      (rs1 @ (st, k) # rs2 @ (st', Key_All) # rs3)"
    unfolding F_def afterReads_def rs ..
  note s = specific_then_all [OF n n12 sid k Fd]
  note t = specific_before_all [OF n n12 k M_def]
  have um: "(\<lambda>sub. sub\<lparr>used := False\<rparr>) = unmark" by (simp add: unmark_def fun_eq_iff)
  from mid have "mid = fst (enableAutoSubscribe
               (this\<lparr>handledAutoSubscriptions :=
                   map unmark (handledAutoSubscriptions this)\<rparr>)
               (rs1 @ (st, k) # rs2) :: 'p ComponentBase \<times> ('p, 'v) Call list)"
    unfolding um by simp
  then have hm: "handledAutoSubscriptions mid = M"
    and cm: "onAutoSubscriptionChanged mid = onAutoSubscriptionChanged this"
    unfolding M_def by (simp_all add: enableAutoSubscribe_foldl)
  have nm: "\<not> matchesRead st' Key_All x" if "subscriptionPair x = (storeId st, k)" for x
    using that k by (auto simp: subscriptionPair_def matchesRead_def)
  from t(2) nm have 1: "\<exists>s\<in>set (handledAutoSubscriptions mid).
            subscriptionPair s = (storeId st, k) \<and> \<not> matchesRead st' Key_All s"
    unfolding hm by blast
  have "utils_find M (matchesRead st' Key_All) = None"
    using t(1) sid by (intro noKeyAll_find_None) simp
  then have 2: "findMatchingAutoSubscription mid st' Key_All = None"
    unfolding findMatching_matchesRead hm .
  then have 3: "handleAutoSubscribe mid st' Key_All =
      (mid\<lparr>handledAutoSubscriptions := handledAutoSubscriptions mid @ [new]\<rparr>,
       [TrackAutoSubscription new :: ('p, 'v) Call])"
    unfolding new_def by (simp add: handleAutoSubscribe_def cm Let_def)
  from s(1) obtain x where x: "x \<in> set (filter used F)"
    and px: "subscriptionPair x = (storeId st, k)" by blast
  from x px nm have 4: "\<exists>s\<in>set (handledAutoSubscriptions this').
            subscriptionPair s = (storeId st, k) \<and> \<not> matchesRead st' Key_All s"
    unfolding h by blast
  from s(2) have 5: "new \<in> set (handledAutoSubscriptions this')" unfolding h new_def .
  from s(3) have 6: "TrackAutoSubscription new \<in> set calls"
    unfolding build_Inr_tracked [OF b] F_def new_def by simp
  have d: "distinct (map subscriptionPair (handledAutoSubscriptions this'))"
    unfolding h F_def by (rule swept_distinct)
  have pn: "subscriptionPair new = (storeId st, Key_All)"
    unfolding new_def subscriptionPair_def using sid by simp
  from x have x': "x \<in> set (handledAutoSubscriptions this')" unfolding h .
  from px pn k have "subscriptionPair x \<noteq> subscriptionPair new" by simp
  from two_of_distinct [OF d x' 5 this]
  have "length (filter (\<lambda>s. subscriptionPair s = (storeId st, k) \<or>
      subscriptionPair s = (storeId st, Key_All)) (handledAutoSubscriptions this')) = 2"
    unfolding px pn .
  moreover have "(\<lambda>s. subscriptionPair s = (storeId st, k) \<or>
      subscriptionPair s = (storeId st, Key_All)) =
    (\<lambda>s. storeId (store s) = storeId st \<and> (key s = k \<or> key s = Key_All))"
    by (auto simp: subscriptionPair_def fun_eq_iff)
  ultimately have 7: "length (filter (\<lambda>s. storeId (store s) = storeId st \<and>
      (key s = k \<or> key s = Key_All)) (handledAutoSubscriptions this')) = 2" by simp
  from 1 2 3 4 5 6 7 show ?thesis unfolding new_def by blast
qed

theorem key_all_after_specific_witness:
  "buildStateWithAutoSubscriptions
     (ambientWith [(storeB, ''y''), (storeA, ''x''), (storeA, ''z''), (storeA, Key_All),
        (storeA, ''x'')] (Inr None))
     (ownerWith [subscriptionOf storeB Key_All True] True) 0 False =
   (Inr None,
    ownerWith [subscriptionOf storeB Key_All True, subscriptionOf storeA ''x'' True,
      subscriptionOf storeA ''z'' True, subscriptionOf storeA Key_All True] True,
    [BuildState 0 False, TrackAutoSubscription (subscriptionOf storeA ''x'' True),
     TrackAutoSubscription (subscriptionOf storeA ''z'' True),
     TrackAutoSubscription (subscriptionOf storeA Key_All True)]) \<and>
   ''x'' \<noteq> Key_All \<and>
   findMatchingAutoSubscription
     (ownerWith [subscriptionOf storeB Key_All True, subscriptionOf storeA ''x'' True,
        subscriptionOf storeA ''z'' True] True) storeA Key_All = None \<and>
   length (filter (\<lambda>s. storeId (store s) = storeId storeA \<and> (key s = ''x'' \<or> key s = Key_All))
     [subscriptionOf storeB Key_All True, subscriptionOf storeA ''x'' True,
      subscriptionOf storeA ''z'' True, subscriptionOf storeA Key_All True]) = 2"
proof -
  have h: "buildStateWithAutoSubscriptions
     (ambientWith [(storeB, ''y''), (storeA, ''x''), (storeA, ''z''), (storeA, Key_All),
        (storeA, ''x'')] (Inr None))
     (ownerWith [subscriptionOf storeB Key_All True] True) 0 False =
   (Inr None,
    ownerWith [subscriptionOf storeB Key_All True, subscriptionOf storeA ''x'' True,
      subscriptionOf storeA ''z'' True, subscriptionOf storeA Key_All True] True,
    [BuildState 0 False, TrackAutoSubscription (subscriptionOf storeA ''x'' True),
     TrackAutoSubscription (subscriptionOf storeA ''z'' True),
     TrackAutoSubscription (subscriptionOf storeA Key_All True)])"
    by (simp add: run_defs)
  have r: "reads (buildState (ambientWith [(storeB, ''y''), (storeA, ''x''), (storeA, ''z''),
        (storeA, Key_All), (storeA, ''x'')] (Inr None)) 0 False) =
      [(storeB, ''y'')] @ (storeA, ''x'') # [(storeA, ''z'')] @ (storeA, Key_All) #
      [(storeA, ''x'')]"
    by (simp add: ambientWith_def)
  have k: "''x'' \<noteq> Key_All" by (simp add: Key_All_def)
  have n0: "\<forall>s\<in>set (handledAutoSubscriptions
        (ownerWith [subscriptionOf storeB Key_All True] True)).
      \<not> (storeId (store s) = storeId storeA \<and> key s = Key_All)"
    by (simp add: ownerWith_def subscriptionOf_def storeA_def storeB_def)
  have n12: "\<forall>r\<in>set ([(storeB, ''y'')] @ [(storeA, ''z'')]).
      \<not> (storeId (fst r) = storeId storeA \<and> snd r = Key_All)"
    by (simp add: storeA_def storeB_def Key_All_def)
  have m: "enableAutoSubscribe
      (ownerWith [subscriptionOf storeB Key_All True] True
        \<lparr>handledAutoSubscriptions := map (\<lambda>sub. sub\<lparr>used := False\<rparr>)
           (handledAutoSubscriptions (ownerWith [subscriptionOf storeB Key_All True] True))\<rparr>)
      ([(storeB, ''y'')] @ (storeA, ''x'') # [(storeA, ''z'')]) =
    (ownerWith [subscriptionOf storeB Key_All True, subscriptionOf storeA ''x'' True,
        subscriptionOf storeA ''z'' True] True,
     [TrackAutoSubscription (subscriptionOf storeA ''x'' True),
      TrackAutoSubscription (subscriptionOf storeA ''z'' True) :: (nat, nat) Call])"
    by (simp add: run_defs)
  from key_all_after_specific [OF h r refl k n0 n12 m] h k show ?thesis
    by (simp add: ownerWith_def)
qed

text \<open>
  C9 as stated fails when a \<^verbatim>\<open>Key_All\<close> subscription for the store is already there: from
  a registry holding it, or after an earlier \<^verbatim>\<open>Key_All\<close> read of the same build, the read
  of \<open>x\<close> and the later \<^verbatim>\<open>Key_All\<close> read are both answered by that subscription; no
  subscription is created by either, and the registry ends the build holding one subscription
  for the store.
\<close>

theorem key_all_after_specific_counterexample:
  "buildStateWithAutoSubscriptions
     (ambientWith [(storeA, ''x''), (storeA, Key_All)] (Inr None))
     (ownerWith [subscriptionOf storeA Key_All True] True) 0 False =
   (Inr None, ownerWith [subscriptionOf storeA Key_All True] True, [BuildState 0 False]) \<and>
   buildStateWithAutoSubscriptions
     (ambientWith [(storeA, Key_All), (storeA, ''x''), (storeA, Key_All)] (Inr None))
     (ownerWith [] True) 0 False =
   (Inr None, ownerWith [subscriptionOf storeA Key_All True] True,
    [BuildState 0 False, TrackAutoSubscription (subscriptionOf storeA Key_All True)]) \<and>
   ''x'' \<noteq> Key_All"
  by (simp add: run_defs)

subsection \<open>C4: reads on a store with a \<^verbatim>\<open>Key_All\<close> subscription\<close>

text \<open>
  C4, as the code has it. An owner holding a \<^verbatim>\<open>Key_All\<close> subscription \<open>s\<close> for a storeId
  answers every read of any key on a store with that storeId from its registry: the read
  creates no subscription and calls no store, and it marks used the first subscription in
  registry order that answers the read. That one stands at or before \<open>s\<close>: it is \<open>s\<close>
  itself unless a subscription answering the read precedes \<open>s\<close>. Throughout the reads of a
  build no subscription is tracked for that storeId, and the subscriptions the registry held
  keep their store, key and callback (no \<^verbatim>\<open>Key_All\<close> subscription is narrowed).
\<close>

theorem key_all_absorbs:
  assumes s: "s \<in> set (handledAutoSubscriptions this)"
    and k: "key s = Key_All" and sid: "storeId (store s) = storeId st"
  shows "(\<exists>i<length (handledAutoSubscriptions this).
      findMatchingAutoSubscription this st k = Some i \<and>
      matchesRead st k (handledAutoSubscriptions this ! i) \<and>
      (\<forall>j<i. \<not> matchesRead st k (handledAutoSubscriptions this ! j)) \<and>
      (\<forall>n<length (handledAutoSubscriptions this).
          handledAutoSubscriptions this ! n = s \<longrightarrow> i \<le> n) \<and>
      handleAutoSubscribe this st k =
        (this\<lparr>handledAutoSubscriptions :=
           (handledAutoSubscriptions this)
             [i := (handledAutoSubscriptions this ! i)\<lparr>used := True\<rparr>]\<rparr>, [])) \<and>
    (\<forall>rs t. TrackAutoSubscription t \<in> set (snd (enableAutoSubscribe this rs)) \<longrightarrow>
       storeId (store t) \<noteq> storeId st) \<and>
    (\<forall>rs. map unmark (take (length (handledAutoSubscriptions this))
         (handledAutoSubscriptions (fst (enableAutoSubscribe this rs)))) =
       map unmark (handledAutoSubscriptions this))"
proof (intro conjI allI impI)
  have h: "hasKeyAll (storeId st) (handledAutoSubscriptions this)"
    using s k sid by (auto simp: hasKeyAll_def)
  from hasKeyAll_find [OF h, of k] obtain i
    where f: "utils_find (handledAutoSubscriptions this) (matchesRead st k) = Some i" by blast
  then have fi: "findMatchingAutoSubscription this st k = Some i"
    by (simp add: findMatching_matchesRead)
  from f have "i < length (handledAutoSubscriptions this)"
    and "matchesRead st k (handledAutoSubscriptions this ! i)"
    and nj: "\<forall>j<i. \<not> matchesRead st k (handledAutoSubscriptions this ! j)"
    by (simp_all add: utils_find_Some)
  moreover have "\<forall>n<length (handledAutoSubscriptions this).
          handledAutoSubscriptions this ! n = s \<longrightarrow> i \<le> n"
  proof (intro allI impI)
    fix n
    assume "n < length (handledAutoSubscriptions this)"
      and e: "handledAutoSubscriptions this ! n = s"
    have "matchesRead st k s" using k sid by (simp add: matchesRead_def)
    with e nj show "i \<le> n" by (cases "n < i") auto
  qed
  moreover from fi have "handleAutoSubscribe this st k =
        (this\<lparr>handledAutoSubscriptions :=
           (handledAutoSubscriptions this)
             [i := (handledAutoSubscriptions this ! i)\<lparr>used := True\<rparr>]\<rparr>, [])"
    by (simp add: handleAutoSubscribe_def)
  ultimately show "\<exists>i<length (handledAutoSubscriptions this).
      findMatchingAutoSubscription this st k = Some i \<and>
      matchesRead st k (handledAutoSubscriptions this ! i) \<and>
      (\<forall>j<i. \<not> matchesRead st k (handledAutoSubscriptions this ! j)) \<and>
      (\<forall>n<length (handledAutoSubscriptions this).
          handledAutoSubscriptions this ! n = s \<longrightarrow> i \<le> n) \<and>
      handleAutoSubscribe this st k =
        (this\<lparr>handledAutoSubscriptions :=
           (handledAutoSubscriptions this)
             [i := (handledAutoSubscriptions this ! i)\<lparr>used := True\<rparr>]\<rparr>, [])"
    using fi by blast
next
  fix rs t
  assume "TrackAutoSubscription t \<in> set (snd (enableAutoSubscribe this rs))"
  then have "t \<in> set (drop (length (handledAutoSubscriptions this))
      (foldl (markRead (onAutoSubscriptionChanged this)) (handledAutoSubscriptions this) rs))"
    by (auto simp: enableAutoSubscribe_foldl)
  moreover have "hasKeyAll (storeId st) (handledAutoSubscriptions this)"
    using s k sid by (auto simp: hasKeyAll_def)
  ultimately show "storeId (store t) \<noteq> storeId st"
    by (rule tracked_not_absorbed [rotated])
next
  fix rs
  show "map unmark (take (length (handledAutoSubscriptions this))
         (handledAutoSubscriptions (fst (enableAutoSubscribe this rs)))) =
       map unmark (handledAutoSubscriptions this)"
    by (rule enableAutoSubscribe_unmark)
qed

theorem key_all_absorbs_witness:
  "subscriptionOf storeA Key_All False \<in>
     set (handledAutoSubscriptions
       (ownerWith [subscriptionOf storeA ''x'' False, subscriptionOf storeA Key_All False] True)) \<and>
   key (subscriptionOf storeA Key_All False) = Key_All \<and>
   findMatchingAutoSubscription
     (ownerWith [subscriptionOf storeA ''x'' False, subscriptionOf storeA Key_All False] True)
     storeA ''y'' = Some 1 \<and>
   handleAutoSubscribe
     (ownerWith [subscriptionOf storeA ''x'' False, subscriptionOf storeA Key_All False] True)
     storeA ''y'' =
   (ownerWith [subscriptionOf storeA ''x'' False, subscriptionOf storeA Key_All True] True,
    ([] :: (nat, nat) Call list))"
proof -
  have s: "subscriptionOf storeA Key_All False \<in>
     set (handledAutoSubscriptions
       (ownerWith [subscriptionOf storeA ''x'' False, subscriptionOf storeA Key_All False] True))"
    by (simp add: ownerWith_def)
  have k: "key (subscriptionOf storeA Key_All False) = Key_All"
    by (simp add: subscriptionOf_def)
  have sid: "storeId (store (subscriptionOf storeA Key_All False)) = storeId storeA"
    by (simp add: subscriptionOf_def)
  from key_all_absorbs [OF s k sid, of "''y''"] s k show ?thesis
    by (simp add: run_defs)
qed

text \<open>
  C4 as stated fails where a subscription for the read's own key precedes the \<^verbatim>\<open>Key_All\<close>
  subscription (the registry a build leaves that read \<open>x\<close> and then \<^verbatim>\<open>Key_All\<close> on the
  store): the read of \<open>x\<close> marks the subscription for \<open>x\<close> and leaves the \<^verbatim>\<open>Key_All\<close>
  subscription unmarked, and a build that reads only \<open>x\<close> sweeps the \<^verbatim>\<open>Key_All\<close>
  subscription.
\<close>

theorem key_all_absorbs_counterexample:
  "handleAutoSubscribe
     (ownerWith [subscriptionOf storeA ''x'' False, subscriptionOf storeA Key_All False] True)
     storeA ''x'' =
   (ownerWith [subscriptionOf storeA ''x'' True, subscriptionOf storeA Key_All False] True,
    ([] :: (nat, nat) Call list)) \<and>
   buildStateWithAutoSubscriptions (ambientWith [(storeA, ''x'')] (Inr None))
     (ownerWith [subscriptionOf storeA ''x'' True, subscriptionOf storeA Key_All True] True)
     0 False =
   (Inr None, ownerWith [subscriptionOf storeA ''x'' True] True,
    [BuildState 0 False, RemoveAutoSubscription (subscriptionOf storeA Key_All False)])"
  by (simp add: run_defs)

subsection \<open>C2: the sweep\<close>

text \<open>
  C2, as the code has it. Let build N complete and read \<open>(st, k)\<close>, and let build N+1
  complete. After build N the registry holds the subscription that corresponds to the read:
  the one \<^verbatim>\<open>_findMatchingAutoSubscription\<close> finds for it, which is for \<open>k\<close> on that storeId
  or is a \<^verbatim>\<open>Key_All\<close> subscription absorbing it. A read is answered by that subscription
  only if it is a read on its storeId of its key, or of any key when it is a \<^verbatim>\<open>Key_All\<close>
  subscription. If no read of build N+1 is answered by that subscription, then \<^verbatim>\<open>removeAutoSubscription\<close> was called for it during build N+1,
  the registry after build N+1 holds no subscription with its (storeId, key), and an index
  that agreed with the registry before build N+1 agrees with it afterwards and holds no entry
  of this owner with its (storeId, key). If some read of build N+1 is answered by it, it is
  still in the registry after build N+1.
\<close>

theorem sweep_unread:
  assumes b1: "buildStateWithAutoSubscriptions amb1 this0 p1 initialBuild1 = (Inr state1, this1, calls1)"
    and r1: "(st, k) \<in> set (reads (buildState amb1 p1 initialBuild1))"
    and b2: "buildStateWithAutoSubscriptions amb2 this1 p2 initialBuild2 = (Inr state2, this2, calls2)"
  shows "\<exists>i<length (handledAutoSubscriptions this1).
    findMatchingAutoSubscription this1 st k = Some i \<and>
    matchesRead st k (handledAutoSubscriptions this1 ! i) \<and>
    (\<forall>r\<in>set (reads (buildState amb2 p2 initialBuild2)).
        findMatchingAutoSubscription this1 (fst r) (snd r) = Some i \<longrightarrow>
          matchesRead (fst r) (snd r) (handledAutoSubscriptions this1 ! i)) \<and>
    ((\<forall>r\<in>set (reads (buildState amb2 p2 initialBuild2)).
        findMatchingAutoSubscription this1 (fst r) (snd r) \<noteq> Some i) \<longrightarrow>
       RemoveAutoSubscription (unmark (handledAutoSubscriptions this1 ! i)) \<in> set calls2 \<and>
       (\<forall>s\<in>set (handledAutoSubscriptions this2).
           subscriptionPair s \<noteq> subscriptionPair (handledAutoSubscriptions this1 ! i)) \<and>
       (\<forall>idx. inSync this1 idx \<longrightarrow>
           inSync this2 (storeIndex idx calls2) \<and>
           (\<forall>h\<in>set (ownerIndex (onAutoSubscriptionChanged this2) (storeIndex idx calls2)).
               (storeId (fst h), fst (snd h)) \<noteq>
                 subscriptionPair (handledAutoSubscriptions this1 ! i)))) \<and>
    ((\<exists>r\<in>set (reads (buildState amb2 p2 initialBuild2)).
        findMatchingAutoSubscription this1 (fst r) (snd r) = Some i) \<longrightarrow>
       handledAutoSubscriptions this1 ! i \<in> set (handledAutoSubscriptions this2))"
proof -
  define rs2 where "rs2 = reads (buildState amb2 p2 initialBuild2)"
  define L where "L = handledAutoSubscriptions this1"
  have L1: "L = filter used (afterReads this0 (reads (buildState amb1 p1 initialBuild1)))"
    unfolding L_def using b1 by (rule build_Inr_registry)
  have h2: "handledAutoSubscriptions this2 = filter used (afterReads this1 rs2)"
    unfolding rs2_def using b2 by (rule build_Inr_registry)
  have d: "distinct (map subscriptionPair L)" unfolding L1 by (rule swept_distinct)
  have allused: "\<forall>s\<in>set L. used s" unfolding L1 by simp
  from swept_covers [OF r1, of this0] obtain s where "s \<in> set L" and "matchesRead st k s"
    unfolding L1 by auto
  then have "utils_find L (matchesRead st k) \<noteq> None" unfolding utils_find_None by blast
  then obtain i where fi: "utils_find L (matchesRead st k) = Some i"
    by (cases "utils_find L (matchesRead st k)") simp_all
  then have i: "i < length L" and m: "matchesRead st k (L ! i)"
    by (simp_all add: utils_find_Some)
  from fi have f: "findMatchingAutoSubscription this1 st k = Some i"
    unfolding L_def by (simp add: findMatching_matchesRead)
  have A: "RemoveAutoSubscription (unmark (L ! i)) \<in> set calls2 \<and>
       (\<forall>s\<in>set (handledAutoSubscriptions this2). subscriptionPair s \<noteq> subscriptionPair (L ! i)) \<and>
       (\<forall>idx. inSync this1 idx \<longrightarrow>
           inSync this2 (storeIndex idx calls2) \<and>
           (\<forall>h\<in>set (ownerIndex (onAutoSubscriptionChanged this2) (storeIndex idx calls2)).
               (storeId (fst h), fst (snd h)) \<noteq> subscriptionPair (L ! i)))"
    if H: "\<forall>r\<in>set rs2. findMatchingAutoSubscription this1 (fst r) (snd r) \<noteq> Some i"
  proof -
    note u = unfound_swept [OF i [unfolded L_def] d [unfolded L_def] H]
    from i afterReads_length [of this1 rs2]
    have "afterReads this1 rs2 ! i \<in> set (afterReads this1 rs2)" unfolding L_def by simp
    then have "unmark (L ! i) \<in> set (afterReads this1 rs2)" unfolding u(1) L_def .
    moreover have "\<not> used (unmark (L ! i))" by (simp add: unmark_def)
    ultimately have 1: "RemoveAutoSubscription (unmark (L ! i)) \<in> set calls2"
      using b2 unfolding rs2_def by (intro build_Inr_removed)
    have 2: "\<forall>s\<in>set (handledAutoSubscriptions this2).
        subscriptionPair s \<noteq> subscriptionPair (L ! i)"
      unfolding h2 L_def by (rule u(3))
    have 3: "\<forall>idx. inSync this1 idx \<longrightarrow>
           inSync this2 (storeIndex idx calls2) \<and>
           (\<forall>h\<in>set (ownerIndex (onAutoSubscriptionChanged this2) (storeIndex idx calls2)).
               (storeId (fst h), fst (snd h)) \<noteq> subscriptionPair (L ! i))"
    proof (intro allI impI conjI ballI)
      fix idx
      assume s: "inSync this1 idx"
      from b2 s show y: "inSync this2 (storeIndex idx calls2)" by (rule inSync_build)
      fix h
      assume "h \<in> set (ownerIndex (onAutoSubscriptionChanged this2) (storeIndex idx calls2))"
      then have "h \<in># mset (ownerIndex (onAutoSubscriptionChanged this2) (storeIndex idx calls2))"
        by simp
      then have "h \<in># mset (map subscriptionHandle (handledAutoSubscriptions this2))"
        using y unfolding inSync_def by simp
      then obtain s' where s': "s' \<in> set (handledAutoSubscriptions this2)"
        and h: "h = subscriptionHandle s'" by auto
      from 2 s' have "subscriptionPair s' \<noteq> subscriptionPair (L ! i)" by blast
      then show "(storeId (fst h), fst (snd h)) \<noteq> subscriptionPair (L ! i)"
        unfolding h subscriptionHandle_def subscriptionPair_def by simp
    qed
    from 1 2 3 show ?thesis by blast
  qed
  have B: "L ! i \<in> set (handledAutoSubscriptions this2)"
    if H: "\<exists>r\<in>set rs2. findMatchingAutoSubscription this1 (fst r) (snd r) = Some i"
  proof -
    from i allused have "used (L ! i)" by simp
    from found_kept [OF i [unfolded L_def] this [unfolded L_def] H]
    show ?thesis unfolding h2 L_def .
  qed
  have C: "\<forall>r\<in>set rs2. findMatchingAutoSubscription this1 (fst r) (snd r) = Some i \<longrightarrow>
      matchesRead (fst r) (snd r) (L ! i)"
    unfolding L_def by (simp add: findMatching_matchesRead utils_find_Some)
  from i f m A B C show ?thesis unfolding L_def rs2_def by blast
qed

theorem sweep_unread_witness:
  "buildStateWithAutoSubscriptions
     (ambientWith [(storeA, ''x'')] (Inr None))
     (ownerWith [subscriptionOf storeA Key_All True] True) 0 False =
   (Inr None, ownerWith [subscriptionOf storeA Key_All True] True, [BuildState 0 False]) \<and>
   buildStateWithAutoSubscriptions
     (ambientWith [(storeB, ''y'')] (Inr None))
     (ownerWith [subscriptionOf storeA Key_All True] True) 0 False =
   (Inr None, ownerWith [subscriptionOf storeB ''y'' True] True,
    [BuildState 0 False, TrackAutoSubscription (subscriptionOf storeB ''y'' True),
     RemoveAutoSubscription (subscriptionOf storeA Key_All False)]) \<and>
   findMatchingAutoSubscription (ownerWith [subscriptionOf storeA Key_All True] True)
     storeA ''x'' = Some 0 \<and>
   findMatchingAutoSubscription (ownerWith [subscriptionOf storeA Key_All True] True)
     storeB ''y'' = None \<and>
   RemoveAutoSubscription (unmark (subscriptionOf storeA Key_All True)) \<in>
     set [BuildState (0::nat) False, TrackAutoSubscription (subscriptionOf storeB ''y'' True),
       RemoveAutoSubscription (subscriptionOf storeA Key_All False) :: (nat, nat) Call] \<and>
   inSync (ownerWith [subscriptionOf storeA Key_All True] True)
     [(storeA, Key_All, 9), (storeA, Key_All, 7)] \<and>
   storeIndex [(storeA, Key_All, 9), (storeA, Key_All, 7)]
     [BuildState (0::nat) False, TrackAutoSubscription (subscriptionOf storeB ''y'' True),
      RemoveAutoSubscription (subscriptionOf storeA Key_All False) :: (nat, nat) Call] =
   [(storeA, Key_All, 9), (storeB, ''y'', 7)]"
proof -
  define this1 where "this1 = ownerWith [subscriptionOf storeA Key_All True] True"
  define calls2 where "calls2 =
    [BuildState (0::nat) False, TrackAutoSubscription (subscriptionOf storeB ''y'' True),
     RemoveAutoSubscription (subscriptionOf storeA Key_All False) :: (nat, nat) Call]"
  have b1: "buildStateWithAutoSubscriptions
     (ambientWith [(storeA, ''x'')] (Inr None)) this1 0 False =
   (Inr None, this1, [BuildState 0 False])"
    unfolding this1_def by (simp add: run_defs)
  have r1: "(storeA, ''x'') \<in>
      set (reads (buildState (ambientWith [(storeA, ''x'')] (Inr None)) 0 False))"
    by (simp add: ambientWith_def)
  have b2: "buildStateWithAutoSubscriptions
     (ambientWith [(storeB, ''y'')] (Inr None)) this1 0 False =
   (Inr None, ownerWith [subscriptionOf storeB ''y'' True] True, calls2)"
    unfolding this1_def calls2_def by (simp add: run_defs)
  have f: "findMatchingAutoSubscription this1 storeA ''x'' = Some 0"
    unfolding this1_def by (simp add: run_defs)
  have g: "findMatchingAutoSubscription this1 storeB ''y'' = None"
    unfolding this1_def by (simp add: run_defs)
  have y: "inSync this1 [(storeA, Key_All, 9), (storeA, Key_All, 7)]"
    unfolding this1_def
    by (simp add: inSync_def ownerIndex_def ownerWith_def subscriptionOf_def
        subscriptionHandle_def)
  have x: "storeIndex [(storeA, Key_All, 9), (storeA, Key_All, 7)] calls2 =
      [(storeA, Key_All, 9), (storeB, ''y'', 7)]"
    unfolding calls2_def
    by (simp add: subscriptionOf_def subscriptionHandle_def storeA_def storeB_def Key_All_def)
  from sweep_unread [OF b1 r1 b2] obtain i where
    i: "findMatchingAutoSubscription this1 storeA ''x'' = Some i"
    and s: "(\<forall>r\<in>set (reads (buildState (ambientWith [(storeB, ''y'')] (Inr None)) 0 False)).
        findMatchingAutoSubscription this1 (fst r) (snd r) \<noteq> Some i) \<longrightarrow>
       RemoveAutoSubscription (unmark (handledAutoSubscriptions this1 ! i)) \<in> set calls2"
    by blast
  from i f have i0: "i = 0" by simp
  have "\<forall>r\<in>set (reads (buildState (ambientWith [(storeB, ''y'')] (Inr None)) 0 False)).
        findMatchingAutoSubscription this1 (fst r) (snd r) \<noteq> Some i"
    using g by (simp add: ambientWith_def)
  with s have "RemoveAutoSubscription (unmark (handledAutoSubscriptions this1 ! i)) \<in> set calls2"
    by blast
  then have z: "RemoveAutoSubscription (unmark (subscriptionOf storeA Key_All True)) \<in> set calls2"
    unfolding i0 this1_def by (simp add: ownerWith_def)
  from b1 b2 f g z y x show ?thesis unfolding this1_def calls2_def by blast
qed

text \<open>
  C2 as stated fails for \<^verbatim>\<open>Key_All\<close>: build N reads \<^verbatim>\<open>Key_All\<close> on the store, build N+1
  does not read that pair but reads key \<open>y\<close> on the store; the \<^verbatim>\<open>Key_All\<close> subscription
  answers the read, stays in the registry, and \<^verbatim>\<open>removeAutoSubscription\<close> is not called.
\<close>

theorem sweep_unread_counterexample:
  "buildStateWithAutoSubscriptions
     (ambientWith [(storeA, Key_All)] (Inr None)) (ownerWith [] True) 0 True =
   (Inr None, ownerWith [subscriptionOf storeA Key_All True] True,
    [BuildState 0 True, TrackAutoSubscription (subscriptionOf storeA Key_All True)]) \<and>
   buildStateWithAutoSubscriptions
     (ambientWith [(storeA, ''y'')] (Inr None))
     (ownerWith [subscriptionOf storeA Key_All True] True) 0 False =
   (Inr None, ownerWith [subscriptionOf storeA Key_All True] True, [BuildState 0 False])"
  by (simp add: run_defs)

subsection \<open>C8: the initial build in a lifetime\<close>




end
